theory Spec2Isabelle
  imports Main
begin

section \<open>Characters and the fixed tables\<close>

text \<open>
  A source text is a \<^typ>\<open>string\<close>; every \<^typ>\<open>char\<close> stands for one code point of the
  Python string, so the model covers the texts over the code points 0 to 255. The
  classification methods of Python's \<open>str\<close> are written out from the Unicode character
  database for this range: \<open>isdigit\<close> holds of the ten decimal digits and of the
  superscripts two, three and one; \<open>isalpha\<close> of the letters (general category L);
  \<open>isalnum\<close> is \<open>isalpha or isdecimal or isdigit or isnumeric\<close>.
\<close>

abbreviation NL :: char where "NL \<equiv> CHR 0x0A"
abbreviation TAB :: char where "TAB \<equiv> CHR 0x09"
abbreviation CR :: char where "CR \<equiv> CHR 0x0D"
abbreviation BACKSLASH :: char where "BACKSLASH \<equiv> CHR 0x5C"
abbreviation DQUOTE :: char where "DQUOTE \<equiv> CHR 0x22"
abbreviation SQUOTE :: char where "SQUOTE \<equiv> CHR 0x27"

definition code_point :: "char \<Rightarrow> nat" where
  "code_point c = of_char c"

definition isdecimal :: "char \<Rightarrow> bool" where
  "isdecimal c = (48 \<le> code_point c \<and> code_point c \<le> 57)"

definition isdigit :: "char \<Rightarrow> bool" where
  "isdigit c = (isdecimal c \<or> code_point c = 178 \<or> code_point c = 179 \<or> code_point c = 185)"

definition isnumeric :: "char \<Rightarrow> bool" where
  "isnumeric c = (isdigit c \<or> (188 \<le> code_point c \<and> code_point c \<le> 190))"

definition isalpha :: "char \<Rightarrow> bool" where
  "isalpha c =
     ((65 \<le> code_point c \<and> code_point c \<le> 90) \<or> (97 \<le> code_point c \<and> code_point c \<le> 122) \<or>
      code_point c = 170 \<or> code_point c = 181 \<or> code_point c = 186 \<or>
      (192 \<le> code_point c \<and> code_point c \<le> 214) \<or> (216 \<le> code_point c \<and> code_point c \<le> 246) \<or>
      248 \<le> code_point c)"

definition isalnum :: "char \<Rightarrow> bool" where
  "isalnum c = (isalpha c \<or> isdecimal c \<or> isdigit c \<or> isnumeric c)"

definition TOKEN_TYPES_KEYWORD :: "string list" where
  "TOKEN_TYPES_KEYWORD =
    [''auto'', ''break'', ''case'', ''char'', ''const'', ''continue'', ''default'', ''do'',
     ''double'', ''else'', ''enum'', ''extern'', ''float'', ''for'', ''goto'', ''if'',
     ''int'', ''long'', ''register'', ''return'', ''short'', ''signed'', ''sizeof'', ''static'',
     ''struct'', ''switch'', ''typedef'', ''union'', ''unsigned'', ''void'', ''volatile'', ''while'',
     ''print'', ''input'', ''def'', ''class'', ''import'', ''from'', ''as'', ''try'', ''except'',
     ''finally'', ''raise'', ''with'', ''yield'', ''lambda'', ''pass'', ''True'', ''False'', ''None'',
     ''and'', ''or'', ''not'', ''in'', ''is'', ''elif'']"

definition multi_char_ops :: "string list" where
  "multi_char_ops =
    [''=='', ''!='', ''<='', ''>='', ''&&'', ''||'', ''++'', ''--'',
     ''+='', ''-='', ''*='', ''/='', ''<<'', ''>>'', ''->'', ''**'', ''//'']"

definition single_ops :: "char set" where
  "single_ops = set ''+-*/%=<>!&|^~?:@''"

definition delimiters :: "char set" where
  "delimiters = set ''(){}[];,.''"

section \<open>Tokens and the cursor\<close>

record token =
  ttype :: string
  tvalue :: string
  tline :: nat
  tcolumn :: nat

record lexer =
  source :: string
  pos :: nat
  line :: nat
  column :: nat
  tokens :: "token list"

definition Lexer :: "string \<Rightarrow> lexer" where
  "Lexer src = \<lparr>source = src, pos = 0, line = 1, column = 1, tokens = []\<rparr>"

definition current_char :: "lexer \<Rightarrow> char option" where
  "current_char L = (if pos L < length (source L) then Some (source L ! pos L) else None)"

definition peek_char :: "lexer \<Rightarrow> char option" where
  "peek_char L =
     (if pos L + 1 < length (source L) then Some (source L ! (pos L + 1)) else None)"

definition advance :: "lexer \<Rightarrow> lexer" where
  "advance L =
     (if current_char L = Some NL
      then L\<lparr>line := line L + 1, column := 1, pos := pos L + 1\<rparr>
      else L\<lparr>column := column L + 1, pos := pos L + 1\<rparr>)"

definition add_token :: "lexer \<Rightarrow> string \<Rightarrow> string \<Rightarrow> nat \<Rightarrow> nat \<Rightarrow> lexer" where
  "add_token L token_type val ln col =
     L\<lparr>tokens := tokens L @ [\<lparr>ttype = token_type, tvalue = val, tline = ln, tcolumn = col\<rparr>]\<rparr>"

lemma current_char_bound: "current_char L = Some c \<Longrightarrow> pos L < length (source L)"
  by (simp add: current_char_def split: if_splits)

lemma source_advance [simp]: "source (advance L) = source L"
  by (simp add: advance_def)

lemma pos_advance [simp]: "pos (advance L) = Suc (pos L)"
  by (simp add: advance_def)

lemma tokens_advance [simp]: "tokens (advance L) = tokens L"
  by (simp add: advance_def)

lemma advance_measure:
  "current_char L = Some c \<Longrightarrow>
     length (source (advance L)) - pos (advance L) < length (source L) - pos L"
  using current_char_bound [of L c] by simp

section \<open>The sub-scanners\<close>

function skip_whitespace :: "lexer \<Rightarrow> lexer" where
  "skip_whitespace L =
     (case current_char L of
        None \<Rightarrow> L
      | Some c \<Rightarrow> if c \<in> set [CHR '' '', TAB, CR] then skip_whitespace (advance L) else L)"
  by pat_completeness auto
termination
  by (relation "measure (\<lambda>L. length (source L) - pos L)") (auto dest: current_char_bound)

function lex_number_loop :: "lexer \<Rightarrow> string \<Rightarrow> bool \<Rightarrow> lexer \<times> string \<times> bool" where
  "lex_number_loop L num_str is_float =
     (case current_char L of
        None \<Rightarrow> (L, num_str, is_float)
      | Some c \<Rightarrow>
          if isdigit c \<or> c = CHR ''.'' then
            (if c = CHR ''.'' \<and> is_float then (L, num_str, is_float)
             else lex_number_loop (advance L) (num_str @ [c])
                    (if c = CHR ''.'' then True else is_float))
          else (L, num_str, is_float))"
  by pat_completeness auto
termination
  by (relation "measure (\<lambda>(L, _, _). length (source L) - pos L)") (auto dest: current_char_bound)

definition lex_number :: "lexer \<Rightarrow> lexer" where
  "lex_number L =
     (let start_line = line L; start_col = column L in
      case lex_number_loop L [] False of
        (L', num_str, is_float) \<Rightarrow>
          add_token L' (if is_float then ''FLOAT'' else ''INTEGER'') num_str start_line start_col)"

function lex_identifier_loop :: "lexer \<Rightarrow> string \<Rightarrow> lexer \<times> string" where
  "lex_identifier_loop L word =
     (case current_char L of
        None \<Rightarrow> (L, word)
      | Some c \<Rightarrow>
          if isalnum c \<or> c = CHR ''_'' then lex_identifier_loop (advance L) (word @ [c])
          else (L, word))"
  by pat_completeness auto
termination
  by (relation "measure (\<lambda>(L, _). length (source L) - pos L)") (auto dest: current_char_bound)

definition lex_identifier :: "lexer \<Rightarrow> lexer" where
  "lex_identifier L =
     (let start_line = line L; start_col = column L in
      case lex_identifier_loop L [] of
        (L', word) \<Rightarrow>
          if word \<in> set TOKEN_TYPES_KEYWORD
          then add_token L' ''KEYWORD'' word start_line start_col
          else add_token L' ''IDENTIFIER'' word start_line start_col)"

text \<open>
  One pass of the body of the loop of \<open>lex_string\<close>: a backslash is copied and passed, and
  then the character that is current, if there is one, is copied and passed.
\<close>

definition lex_string_body :: "lexer \<Rightarrow> string \<Rightarrow> lexer \<times> string" where
  "lex_string_body L string_val =
     (let (L1, s1) =
            (if current_char L = Some BACKSLASH
             then (advance L, string_val @ [BACKSLASH]) else (L, string_val))
      in case current_char L1 of
           None \<Rightarrow> (L1, s1)
         | Some d \<Rightarrow> (advance L1, s1 @ [d]))"

lemma lex_string_body_measure:
  assumes "current_char L = Some c" and "(L', s') = lex_string_body L s"
  shows "length (source L') - pos L' < length (source L) - pos L"
proof -
  have b: "pos L < length (source L)" using assms(1) by (rule current_char_bound)
  show ?thesis
  proof (cases "c = BACKSLASH")
    case True
    then show ?thesis using assms(1) assms(2) [symmetric] b
      by (auto simp: lex_string_body_def split: option.splits dest: current_char_bound)
  next
    case False
    then show ?thesis using assms(1) assms(2) [symmetric] b
      by (auto simp: lex_string_body_def split: option.splits)
  qed
qed

function lex_string_loop :: "lexer \<Rightarrow> char \<Rightarrow> string \<Rightarrow> lexer \<times> string" where
  "lex_string_loop L quote_char string_val =
     (case current_char L of
        None \<Rightarrow> (L, string_val)
      | Some c \<Rightarrow>
          if c \<noteq> quote_char then
            (case lex_string_body L string_val of
               (L', s') \<Rightarrow> lex_string_loop L' quote_char s')
          else (L, string_val))"
  by pat_completeness auto
termination
  by (relation "measure (\<lambda>(L, _, _). length (source L) - pos L)")
     (auto intro: lex_string_body_measure)

definition lex_string :: "lexer \<Rightarrow> char \<Rightarrow> lexer" where
  "lex_string L quote_char =
     (let start_line = line L; start_col = column L in
      case lex_string_loop (advance L) quote_char [quote_char] of
        (L', string_val) \<Rightarrow>
          (if current_char L' = Some quote_char
           then add_token (advance L') ''STRING'' (string_val @ [quote_char]) start_line start_col
           else add_token L' ''STRING'' string_val start_line start_col))"

function lex_line_loop :: "lexer \<Rightarrow> string \<Rightarrow> lexer \<times> string" where
  "lex_line_loop L text =
     (case current_char L of
        None \<Rightarrow> (L, text)
      | Some c \<Rightarrow> if c \<noteq> NL then lex_line_loop (advance L) (text @ [c]) else (L, text))"
  by pat_completeness auto
termination
  by (relation "measure (\<lambda>(L, _). length (source L) - pos L)") (auto dest: current_char_bound)

definition lex_single_comment :: "lexer \<Rightarrow> lexer" where
  "lex_single_comment L =
     (let start_line = line L; start_col = column L in
      case lex_line_loop L [] of
        (L', comment) \<Rightarrow> add_token L' ''COMMENT'' comment start_line start_col)"

function lex_multi_comment_loop :: "lexer \<Rightarrow> string \<Rightarrow> lexer \<times> string" where
  "lex_multi_comment_loop L comment =
     (case current_char L of
        None \<Rightarrow> (L, comment)
      | Some c \<Rightarrow>
          if c = CHR ''*'' \<and> peek_char L = Some CHR ''/''
          then (advance (advance L), comment @ ''*/'')
          else lex_multi_comment_loop (advance L) (comment @ [c]))"
  by pat_completeness auto
termination
  by (relation "measure (\<lambda>(L, _). length (source L) - pos L)") (auto dest: current_char_bound)

definition lex_multi_comment :: "lexer \<Rightarrow> lexer" where
  "lex_multi_comment L =
     (let start_line = line L; start_col = column L in
      case lex_multi_comment_loop (advance (advance L)) ''/*'' of
        (L', comment) \<Rightarrow> add_token L' ''COMMENT'' comment start_line start_col)"

definition lex_preprocessor :: "lexer \<Rightarrow> lexer" where
  "lex_preprocessor L =
     (let start_line = line L; start_col = column L in
      case lex_line_loop L [] of
        (L', directive) \<Rightarrow> add_token L' ''PREPROCESSOR'' directive start_line start_col)"

definition lex_newline :: "lexer \<Rightarrow> lexer" where
  "lex_newline L =
     (let start_line = line L; start_col = column L in
      advance (add_token L ''NEWLINE'' [BACKSLASH, CHR ''n''] start_line start_col))"

section \<open>The dispatcher\<close>

text \<open>
  The chain of tests of the loop of \<open>tokenize\<close>, in the order of the source, names the
  branch that runs; \<open>HashComment\<close> is the second test on the hash sign, the one the
  source labels as the Python single-line comment.
\<close>

datatype branch =
    Newline | Preprocessor | LineComment | BlockComment | HashComment
  | Number | Identifier | String | MultiOp string | SingleOp | Delimiter | Unknown

definition dispatch :: "char \<Rightarrow> char option \<Rightarrow> branch" where
  "dispatch ch pk =
     (if ch = NL then Newline
      else if ch = CHR ''#'' then Preprocessor
      else if ch = CHR ''/'' \<and> pk = Some CHR ''/'' then LineComment
      else if ch = CHR ''/'' \<and> pk = Some CHR ''*'' then BlockComment
      else if ch = CHR ''#'' then HashComment
      else if isdigit ch then Number
      else if isalpha ch \<or> ch = CHR ''_'' then Identifier
      else if ch = DQUOTE \<or> ch = SQUOTE then String
      else case (case pk of
                   None \<Rightarrow> None
                 | Some p \<Rightarrow> if [ch, p] \<in> set multi_char_ops then Some [ch, p] else None) of
             Some two_char \<Rightarrow> MultiOp two_char
           | None \<Rightarrow>
               if ch \<in> single_ops then SingleOp
               else if ch \<in> delimiters then Delimiter
               else Unknown)"

fun run_branch :: "branch \<Rightarrow> lexer \<Rightarrow> char \<Rightarrow> lexer" where
  "run_branch Newline L ch = lex_newline L"
| "run_branch Preprocessor L ch = lex_preprocessor L"
| "run_branch LineComment L ch = lex_single_comment L"
| "run_branch BlockComment L ch = lex_multi_comment L"
| "run_branch HashComment L ch = lex_single_comment L"
| "run_branch Number L ch = lex_number L"
| "run_branch Identifier L ch = lex_identifier L"
| "run_branch String L ch = lex_string L ch"
| "run_branch (MultiOp two_char) L ch =
     advance (advance (add_token L ''OPERATOR'' two_char (line L) (column L)))"
| "run_branch SingleOp L ch = advance (add_token L ''OPERATOR'' [ch] (line L) (column L))"
| "run_branch Delimiter L ch = advance (add_token L ''DELIMITER'' [ch] (line L) (column L))"
| "run_branch Unknown L ch = advance (add_token L ''UNKNOWN'' [ch] (line L) (column L))"

definition scan :: "lexer \<Rightarrow> char \<Rightarrow> lexer" where
  "scan L ch = run_branch (dispatch ch (peek_char L)) L ch"

text \<open>
  The loop of \<open>tokenize\<close>. Not returning is the value \<open>None\<close>; that the loop returns is
  proved below, it is not built into the definition.
\<close>

partial_function (option) tokenize_loop :: "lexer \<Rightarrow> lexer option" where
  "tokenize_loop L =
     (if pos L < length (source L) then
        (let L1 = skip_whitespace L in
         case current_char L1 of
           None \<Rightarrow> Some L1
         | Some ch \<Rightarrow> tokenize_loop (scan L1 ch))
      else Some L)"

declare tokenize_loop.simps [code]

definition tokenize :: "lexer \<Rightarrow> token list option" where
  "tokenize L = map_option tokens (tokenize_loop L)"

section \<open>The scanners as functions of the remaining input\<close>

text \<open>
  The functions of this section are not in the source. They say, on the list of
  characters that remain, what each loop of the source takes: they are what the theorems
  compare the scanners with.
\<close>

text \<open>
  What remains of the source at the cursor, and the cursor after \<open>n\<close> calls of
  \<open>advance\<close>. Whitespace is what \<open>skip_whitespace\<close> passes: space, tab, carriage return.
\<close>

definition rest :: "lexer \<Rightarrow> string" where
  "rest L = drop (pos L) (source L)"

fun advance_n :: "nat \<Rightarrow> lexer \<Rightarrow> lexer" where
  "advance_n 0 L = L"
| "advance_n (Suc n) L = advance_n n (advance L)"

definition is_ws :: "char \<Rightarrow> bool" where
  "is_ws c = (c \<in> set [CHR '' '', TAB, CR])"

text \<open>
  The characters that the loops of \<open>lex_number\<close>, of \<open>lex_string\<close> (after the opening
  quote, up to the closing one) and of \<open>lex_multi_comment\<close> (after the opening marker)
  take from the remaining input, case by case as the loops go. \<open>string_run\<close> is also the
  scanner of strings in the words of the specification: characters are copied as they
  are, a backslash together with the character after it, until the quote that opened the
  string or the end of the input.
\<close>

fun number_run :: "bool \<Rightarrow> string \<Rightarrow> string" where
  "number_run is_float [] = []"
| "number_run is_float (c # cs) =
     (if isdigit c \<or> c = CHR ''.'' then
        (if c = CHR ''.'' \<and> is_float then []
         else c # number_run (if c = CHR ''.'' then True else is_float) cs)
      else [])"

fun string_run :: "char \<Rightarrow> string \<Rightarrow> string" where
  "string_run q [] = []"
| "string_run q [c] = (if c = q then [] else [c])"
| "string_run q (c # d # ds) =
     (if c = q then []
      else if c = BACKSLASH then c # d # string_run q ds
      else c # string_run q (d # ds))"

fun block_run :: "string \<Rightarrow> string" where
  "block_run [] = []"
| "block_run [c] = [c]"
| "block_run (c # d # ds) =
     (if c = CHR ''*'' \<and> d = CHR ''/'' then ''*/'' else c # block_run (d # ds))"

text \<open>
  \<open>emit L n ty v\<close> is the state after a scan that started in \<open>L\<close>, passed \<open>n\<close>
  characters and added one token of type \<open>ty\<close> and value \<open>v\<close> at the position of \<open>L\<close>.
  The lexeme of a token is the text it stands for in the source: its value, except for a
  \<open>NEWLINE\<close>, whose value is the escaped spelling of the newline character.
\<close>

definition emit :: "lexer \<Rightarrow> nat \<Rightarrow> string \<Rightarrow> string \<Rightarrow> lexer" where
  "emit L n ty v = add_token (advance_n n L) ty v (line L) (column L)"

definition lexeme_of :: "string \<Rightarrow> string \<Rightarrow> string" where
  "lexeme_of ty v = (if ty = ''NEWLINE'' then [NL] else v)"

definition lexeme :: "token \<Rightarrow> string" where
  "lexeme t = lexeme_of (ttype t) (tvalue t)"

definition string_value :: "char \<Rightarrow> string \<Rightarrow> string" where
  "string_value q cs =
     q # string_run q cs @ (if drop (length (string_run q cs)) cs = [] then [] else [q])"

text \<open>
  \<open>spans p r xs\<close> finds the lexemes \<open>xs\<close>, in order, in the input \<open>r\<close> that starts at
  offset \<open>p\<close>: before each lexeme a run of whitespace, as long as it can be, then the
  lexeme itself, which is not empty; after the last one only whitespace. The result is
  the list of the spans, each the offset of the first character of a lexeme and the
  offset after its last; \<open>None\<close> when the lexemes and whitespace do not make up \<open>r\<close>.
\<close>

fun spans :: "nat \<Rightarrow> string \<Rightarrow> string list \<Rightarrow> (nat \<times> nat) list option" where
  "spans p r [] = (if list_all is_ws r then Some [] else None)"
| "spans p r (x # xs) =
     (let g = length (takeWhile is_ws r); r' = drop g r in
      if x \<noteq> [] \<and> take (length x) r' = x
      then map_option ((#) (p + g, p + g + length x))
             (spans (p + g + length x) (drop (length x) r') xs)
      else None)"

text \<open>
  The number that \<open>lex_number\<close> takes, in the words of the specification: the digits at
  the cursor and, if a point follows them, that point and the digits after it.
\<close>

definition number_text :: "string \<Rightarrow> string" where
  "number_text r =
     (case dropWhile isdigit r of
        [] \<Rightarrow> takeWhile isdigit r
      | c # r2 \<Rightarrow>
          if c = CHR ''.'' then takeWhile isdigit r @ CHR ''.'' # takeWhile isdigit r2
          else takeWhile isdigit r)"

text \<open>
  The tests of the loop of \<open>tokenize\<close> that come before the operator tables all fail;
  \<open>plain\<close> is the part of it that does not look ahead.
\<close>

definition operator_stage :: "char \<Rightarrow> char option \<Rightarrow> bool" where
  "operator_stage ch pk =
     (ch \<noteq> NL \<and> ch \<noteq> CHR ''#'' \<and> \<not> (ch = CHR ''/'' \<and> pk = Some CHR ''/'') \<and>
      \<not> (ch = CHR ''/'' \<and> pk = Some CHR ''*'') \<and> \<not> isdigit ch \<and>
      \<not> (isalpha ch \<or> ch = CHR ''_'') \<and> \<not> (ch = DQUOTE \<or> ch = SQUOTE))"

definition plain :: "char \<Rightarrow> bool" where
  "plain ch =
     (ch \<noteq> NL \<and> ch \<noteq> CHR ''#'' \<and> \<not> isdigit ch \<and> \<not> (isalpha ch \<or> ch = CHR ''_'') \<and>
      \<not> (ch = DQUOTE \<or> ch = SQUOTE))"

text \<open>
  Positions are pairs of a line and a column, in the lexicographic order.
\<close>

definition lc_less :: "nat \<times> nat \<Rightarrow> nat \<times> nat \<Rightarrow> bool" where
  "lc_less a b = (fst a < fst b \<or> (fst a = fst b \<and> snd a < snd b))"

definition position :: "token \<Rightarrow> nat \<times> nat" where
  "position t = (tline t, tcolumn t)"

definition cursor :: "lexer \<Rightarrow> nat \<times> nat" where
  "cursor L = (line L, column L)"

text \<open>
  The invariants of the loop of \<open>tokenize\<close>: the tokens tile the part of the input that
  the cursor has passed; they are in the order of their positions and all before the
  cursor; none is the operator of two slashes; every comment starts with a slash.
\<close>

definition tiled_so_far :: "lexer \<Rightarrow> bool" where
  "tiled_so_far L =
     (pos L \<le> length (source L) \<and>
      spans 0 (take (pos L) (source L)) (map lexeme (tokens L)) \<noteq> None)"

definition ordered_so_far :: "lexer \<Rightarrow> bool" where
  "ordered_so_far L =
     (sorted_wrt lc_less (map position (tokens L)) \<and>
      (\<forall>t \<in> set (tokens L). lc_less (position t) (cursor L)))"

definition no_slash_operator :: "lexer \<Rightarrow> bool" where
  "no_slash_operator L =
     list_all (\<lambda>t. \<not> (ttype t = ''OPERATOR'' \<and> tvalue t = ''//'')) (tokens L)"

definition comments_start_with_slash :: "lexer \<Rightarrow> bool" where
  "comments_start_with_slash L =
     list_all (\<lambda>t. ttype t \<noteq> ''COMMENT'' \<or> take 1 (tvalue t) = ''/'') (tokens L)"

section \<open>The cursor and the loops of the sub-scanners\<close>

declare skip_whitespace.simps [simp del] lex_number_loop.simps [simp del]
  lex_identifier_loop.simps [simp del] lex_string_loop.simps [simp del]
  lex_line_loop.simps [simp del] lex_multi_comment_loop.simps [simp del]

lemmas char_class_defs = isdigit_def isdecimal_def isnumeric_def isalpha_def isalnum_def code_point_def

lemma current_char_rest:
  "current_char L = (case rest L of [] \<Rightarrow> None | c # _ \<Rightarrow> Some c)"
proof (cases "pos L < length (source L)")
  case True
  then have "rest L = source L ! pos L # drop (Suc (pos L)) (source L)"
    by (simp add: rest_def Cons_nth_drop_Suc)
  with True show ?thesis by (simp add: current_char_def)
next
  case False
  then show ?thesis by (simp add: current_char_def rest_def)
qed

lemma current_char_Nil: "rest L = [] \<Longrightarrow> current_char L = None"
  by (simp add: current_char_rest)

lemma current_char_Cons: "rest L = c # cs \<Longrightarrow> current_char L = Some c"
  by (simp add: current_char_rest)

lemma rest_advance [simp]: "rest (advance L) = tl (rest L)"
  by (simp add: rest_def drop_Suc tl_drop)

lemma peek_char_rest:
  "peek_char L = (case tl (rest L) of [] \<Rightarrow> None | d # _ \<Rightarrow> Some d)"
proof -
  have "peek_char L = current_char (advance L)"
    by (simp add: peek_char_def current_char_def)
  then show ?thesis by (simp add: current_char_rest)
qed

lemma source_advance_n [simp]: "source (advance_n n L) = source L"
  by (induction n arbitrary: L) simp_all

lemma tokens_advance_n [simp]: "tokens (advance_n n L) = tokens L"
  by (induction n arbitrary: L) simp_all

lemma pos_advance_n [simp]: "pos (advance_n n L) = pos L + n"
  by (induction n arbitrary: L) simp_all

lemma rest_advance_n [simp]: "rest (advance_n n L) = drop n (rest L)"
  by (induction n arbitrary: L) (simp_all add: drop_Suc)

lemma advance_n_add: "advance_n (m + n) L = advance_n n (advance_n m L)"
  by (induction m arbitrary: L) simp_all

lemma advance_n_Suc_right: "advance_n (Suc n) L = advance (advance_n n L)"
  using advance_n_add [of n 1 L] by simp

lemma advance_add_token:
  "advance (add_token L ty v l c) = add_token (advance L) ty v l c"
  by (simp add: advance_def add_token_def current_char_def)

lemma advance_n_add_token:
  "advance_n n (add_token L ty v l c) = add_token (advance_n n L) ty v l c"
  by (induction n arbitrary: L) (simp_all add: advance_add_token)

lemma skip_whitespace_run:
  "skip_whitespace L = advance_n (length (takeWhile is_ws (rest L))) L"
proof (induction "rest L" arbitrary: L)
  case Nil
  then show ?case
    by (subst skip_whitespace.simps) (simp add: current_char_Nil [OF Nil [symmetric]])
next
  case (Cons c cs)
  have r: "rest L = c # cs" using Cons(2) by (rule sym)
  have cur: "current_char L = Some c" using r by (rule current_char_Cons)
  have "cs = rest (advance L)" using r by simp
  from Cons(1) [OF this] show ?case using r
    by (subst skip_whitespace.simps) (simp add: cur is_ws_def)
qed

lemma lex_line_loop_run:
  "lex_line_loop L acc =
     (advance_n (length (takeWhile (\<lambda>c. c \<noteq> NL) (rest L))) L,
      acc @ takeWhile (\<lambda>c. c \<noteq> NL) (rest L))"
proof (induction "rest L" arbitrary: L acc)
  case Nil
  then show ?case
    by (subst lex_line_loop.simps) (simp add: current_char_Nil [OF Nil [symmetric]])
next
  case (Cons c cs)
  have r: "rest L = c # cs" using Cons(2) by (rule sym)
  have cur: "current_char L = Some c" using r by (rule current_char_Cons)
  have "cs = rest (advance L)" using r by simp
  from Cons(1) [OF this] show ?case using r
    by (subst lex_line_loop.simps) (simp add: cur)
qed

lemma lex_identifier_loop_run:
  "lex_identifier_loop L acc =
     (advance_n (length (takeWhile (\<lambda>c. isalnum c \<or> c = CHR ''_'') (rest L))) L,
      acc @ takeWhile (\<lambda>c. isalnum c \<or> c = CHR ''_'') (rest L))"
proof (induction "rest L" arbitrary: L acc)
  case Nil
  then show ?case
    by (subst lex_identifier_loop.simps) (simp add: current_char_Nil [OF Nil [symmetric]])
next
  case (Cons c cs)
  have r: "rest L = c # cs" using Cons(2) by (rule sym)
  have cur: "current_char L = Some c" using r by (rule current_char_Cons)
  have "cs = rest (advance L)" using r by simp
  from Cons(1) [OF this] show ?case using r
    by (subst lex_identifier_loop.simps) (simp add: cur)
qed

lemma lex_number_loop_run:
  "lex_number_loop L acc fl =
     (advance_n (length (number_run fl (rest L))) L,
      acc @ number_run fl (rest L),
      fl \<or> CHR ''.'' \<in> set (number_run fl (rest L)))"
proof (induction "rest L" arbitrary: L acc fl)
  case Nil
  then show ?case
    by (subst lex_number_loop.simps) (simp add: current_char_Nil [OF Nil [symmetric]])
next
  case (Cons c cs)
  have r: "rest L = c # cs" using Cons(2) by (rule sym)
  have cur: "current_char L = Some c" using r by (rule current_char_Cons)
  have "cs = rest (advance L)" using r by simp
  from Cons(1) [OF this] show ?case using r
    by (subst lex_number_loop.simps) (auto simp add: cur)
qed

lemma lex_string_loop_run:
  "lex_string_loop L q acc =
     (advance_n (length (string_run q (rest L))) L, acc @ string_run q (rest L))"
proof (induction q "rest L" arbitrary: L acc rule: string_run.induct)
  case (1 q)
  then show ?case
    by (subst lex_string_loop.simps) (simp add: current_char_Nil [OF 1 [symmetric]])
next
  case (2 q c)
  have r: "rest L = [c]" using 2 by (rule sym)
  have cur: "current_char L = Some c" using r by (rule current_char_Cons)
  have r': "rest (advance L) = []" using r by simp
  have cur': "current_char (advance L) = None" using r' by (rule current_char_Nil)
  have stop: "lex_string_loop (advance L) q s = (advance L, s)" for s
    by (subst lex_string_loop.simps) (simp add: cur')
  show ?case using r
    by (subst lex_string_loop.simps) (simp add: cur cur' lex_string_body_def stop)
next
  case (3 q c d ds)
  have r: "rest L = c # d # ds" using 3(3) by (rule sym)
  have cur: "current_char L = Some c" using r by (rule current_char_Cons)
  have r': "rest (advance L) = d # ds" using r by simp
  have cur': "current_char (advance L) = Some d" using r' by (rule current_char_Cons)
  show ?case
  proof (cases "c = q")
    case True
    then show ?thesis using r by (subst lex_string_loop.simps) (simp add: cur)
  next
    case nq: False
    show ?thesis
    proof (cases "c = BACKSLASH")
      case True
      have "ds = rest (advance (advance L))" using r by simp
      from 3(1) [OF nq True this] show ?thesis using r nq True
        by (subst lex_string_loop.simps) (simp add: cur cur' lex_string_body_def)
    next
      case False
      have "d # ds = rest (advance L)" using r by simp
      from 3(2) [OF nq False this] show ?thesis using r nq False
        by (subst lex_string_loop.simps) (simp add: cur cur' lex_string_body_def)
    qed
  qed
qed

lemma lex_multi_comment_loop_run:
  "lex_multi_comment_loop L acc =
     (advance_n (length (block_run (rest L))) L, acc @ block_run (rest L))"
proof (induction "rest L" arbitrary: L acc rule: block_run.induct)
  case 1
  then show ?case
    by (subst lex_multi_comment_loop.simps) (simp add: current_char_Nil [OF 1 [symmetric]])
next
  case (2 c)
  have r: "rest L = [c]" using 2 by (rule sym)
  have cur: "current_char L = Some c" using r by (rule current_char_Cons)
  have pk: "peek_char L = None" using r by (simp add: peek_char_rest)
  have r': "rest (advance L) = []" using r by simp
  have cur': "current_char (advance L) = None" using r' by (rule current_char_Nil)
  have stop: "lex_multi_comment_loop (advance L) s = (advance L, s)" for s
    by (subst lex_multi_comment_loop.simps) (simp add: cur')
  show ?case using r
    by (subst lex_multi_comment_loop.simps) (simp add: cur pk stop)
next
  case (3 c d ds)
  have r: "rest L = c # d # ds" using 3(2) by (rule sym)
  have cur: "current_char L = Some c" using r by (rule current_char_Cons)
  have pk: "peek_char L = Some d" using r by (simp add: peek_char_rest)
  show ?case
  proof (cases "c = CHR ''*'' \<and> d = CHR ''/''")
    case True
    then show ?thesis using r
      by (subst lex_multi_comment_loop.simps) (simp add: cur pk)
  next
    case False
    have "d # ds = rest (advance L)" using r by simp
    from 3(1) [OF False this] show ?thesis using r False
      by (subst lex_multi_comment_loop.simps) (auto simp add: cur pk)
  qed
qed

lemma number_run_prefix: "take (length (number_run fl cs)) cs = number_run fl cs"
  by (induction cs arbitrary: fl) simp_all

lemma string_run_prefix: "take (length (string_run q cs)) cs = string_run q cs"
  by (induction q cs rule: string_run.induct) simp_all

lemma block_run_prefix: "take (length (block_run cs)) cs = block_run cs"
  by (induction cs rule: block_run.induct) simp_all

lemma takeWhile_prefix: "take (length (takeWhile P cs)) cs = takeWhile P cs"
  by (induction cs) simp_all

lemma string_run_stop:
  "drop (length (string_run q cs)) cs = [] \<or> hd (drop (length (string_run q cs)) cs) = q"
  by (induction q cs rule: string_run.induct) simp_all

lemma lex_newline_emit: "lex_newline L = emit L 1 ''NEWLINE'' [BACKSLASH, CHR ''n'']"
  by (simp add: lex_newline_def emit_def advance_add_token Let_def)

lemma lex_preprocessor_emit:
  "lex_preprocessor L =
     emit L (length (takeWhile (\<lambda>c. c \<noteq> NL) (rest L))) ''PREPROCESSOR''
       (takeWhile (\<lambda>c. c \<noteq> NL) (rest L))"
  by (simp add: lex_preprocessor_def emit_def lex_line_loop_run)

lemma lex_single_comment_emit:
  "lex_single_comment L =
     emit L (length (takeWhile (\<lambda>c. c \<noteq> NL) (rest L))) ''COMMENT''
       (takeWhile (\<lambda>c. c \<noteq> NL) (rest L))"
  by (simp add: lex_single_comment_def emit_def lex_line_loop_run)

lemma lex_multi_comment_emit:
  "lex_multi_comment L =
     emit L (2 + length (block_run (drop 2 (rest L)))) ''COMMENT''
       (''/*'' @ block_run (drop 2 (rest L)))"
proof -
  have "drop 2 (rest L) = tl (tl (rest L))"
    by (simp add: numeral_2_eq_2 drop_Suc)
  moreover have "advance_n n (advance (advance L)) = advance_n (2 + n) L" for n
    by (simp add: numeral_2_eq_2)
  ultimately show ?thesis
    by (simp add: lex_multi_comment_def emit_def lex_multi_comment_loop_run)
qed

lemma lex_number_emit:
  "lex_number L =
     emit L (length (number_run False (rest L)))
       (if CHR ''.'' \<in> set (number_run False (rest L)) then ''FLOAT'' else ''INTEGER'')
       (number_run False (rest L))"
  by (simp add: lex_number_def emit_def lex_number_loop_run)

lemma lex_identifier_emit:
  "lex_identifier L =
     emit L (length (takeWhile (\<lambda>c. isalnum c \<or> c = CHR ''_'') (rest L)))
       (if takeWhile (\<lambda>c. isalnum c \<or> c = CHR ''_'') (rest L) \<in> set TOKEN_TYPES_KEYWORD
        then ''KEYWORD'' else ''IDENTIFIER'')
       (takeWhile (\<lambda>c. isalnum c \<or> c = CHR ''_'') (rest L))"
  by (simp add: lex_identifier_def emit_def lex_identifier_loop_run)

lemma lex_string_emit:
  "lex_string L q =
     emit L (length (string_value q (tl (rest L)))) ''STRING'' (string_value q (tl (rest L)))"
proof -
  define w where "w = string_run q (tl (rest L))"
  define L' where "L' = advance_n (length w) (advance L)"
  have loop: "lex_string_loop (advance L) q [q] = (L', q # w)"
    by (simp add: lex_string_loop_run w_def L'_def)
  have rest': "rest L' = drop (length w) (tl (rest L))"
    by (simp add: L'_def)
  have L'_eq: "L' = advance_n (Suc (length w)) L"
    by (simp add: L'_def)
  have lc: "line (advance L) = line (advance L)" ..
  show ?thesis
  proof (cases "drop (length w) (tl (rest L)) = []")
    case True
    then have "current_char L' = None" using rest' by (simp add: current_char_rest)
    then show ?thesis using True loop L'_eq
      by (simp add: lex_string_def emit_def string_value_def w_def [symmetric])
  next
    case False
    then have "hd (drop (length w) (tl (rest L))) = q"
      using string_run_stop [of q "tl (rest L)"] by (simp add: w_def)
    with False have "current_char L' = Some q" using rest'
      by (cases "drop (length w) (tl (rest L))") (simp_all add: current_char_rest)
    moreover have "advance L' = advance_n (Suc (Suc (length w))) L"
      unfolding L'_eq by (rule advance_n_Suc_right [symmetric])
    ultimately show ?thesis using False loop
      by (simp add: lex_string_def emit_def string_value_def w_def [symmetric])
  qed
qed

lemma multi_op_emit:
  "advance (advance (add_token L ty v (line L) (column L))) = emit L 2 ty v"
  by (simp add: emit_def advance_add_token numeral_2_eq_2)

lemma single_emit:
  "advance (add_token L ty v (line L) (column L)) = emit L 1 ty v"
  by (simp add: emit_def advance_add_token)

lemma isalpha_isalnum: "isalpha c \<Longrightarrow> isalnum c"
  by (simp add: isalnum_def)

lemma not_isdigit_dot: "\<not> isdigit (CHR ''.'')"
  by (simp add: isdigit_def isdecimal_def code_point_def)

lemma dispatch_not_HashComment: "dispatch ch pk \<noteq> HashComment"
  by (simp add: dispatch_def split: option.splits)

lemma dispatch_hash: "dispatch (CHR ''#'') pk = Preprocessor"
  by (simp add: dispatch_def)

lemma dispatch_Newline: "dispatch ch pk = Newline \<Longrightarrow> ch = NL"
  by (simp add: dispatch_def split: if_splits option.splits)

lemma dispatch_Preprocessor: "dispatch ch pk = Preprocessor \<Longrightarrow> ch = CHR ''#''"
  by (simp add: dispatch_def split: if_splits option.splits)

lemma dispatch_LineComment: "dispatch ch pk = LineComment \<Longrightarrow> ch = CHR ''/''"
  by (simp add: dispatch_def split: if_splits option.splits)

lemma dispatch_BlockComment:
  "dispatch ch pk = BlockComment \<Longrightarrow> ch = CHR ''/'' \<and> pk = Some CHR ''*''"
  by (simp add: dispatch_def split: if_splits option.splits)

lemma dispatch_Number: "dispatch ch pk = Number \<Longrightarrow> isdigit ch"
  by (simp add: dispatch_def split: if_splits option.splits)

lemma dispatch_Identifier: "dispatch ch pk = Identifier \<Longrightarrow> isalpha ch \<or> ch = CHR ''_''"
  by (simp add: dispatch_def split: if_splits option.splits)

lemma dispatch_MultiOp:
  "dispatch ch pk = MultiOp two \<Longrightarrow>
     \<exists>p. pk = Some p \<and> two = [ch, p] \<and> two \<in> set multi_char_ops \<and> two \<noteq> ''//''"
  by (auto simp add: dispatch_def split: if_splits option.splits)

lemma string_value_prefix:
  "take (length (string_value q cs)) (q # cs) = string_value q cs"
proof (cases "drop (length (string_run q cs)) cs = []")
  case True
  then show ?thesis by (simp add: string_value_def string_run_prefix)
next
  case False
  define k where "k = length (string_run q cs)"
  have hd: "hd (drop k cs) = q"
    using string_run_stop [of q cs] False by (simp add: k_def)
  have lt: "k < length cs" using False by (simp add: k_def)
  have "take (Suc k) cs = take k cs @ [cs ! k]"
    using lt by (simp add: take_Suc_conv_app_nth)
  moreover have "cs ! k = q" using hd lt by (simp add: hd_drop_conv_nth)
  moreover have "take k cs = string_run q cs" by (simp add: k_def string_run_prefix)
  ultimately show ?thesis using False by (simp add: string_value_def k_def)
qed

lemma scan_emit:
  assumes r: "rest L = ch # cs"
  shows "\<exists>n ty v. scan L ch = emit L n ty v \<and> 0 < n \<and> length (lexeme_of ty v) = n \<and>
           take n (rest L) = lexeme_of ty v \<and>
           \<not> (ty = ''OPERATOR'' \<and> v = ''//'') \<and> \<not> (ty = ''COMMENT'' \<and> ch \<noteq> CHR ''/'')"
proof -
  let ?P = "\<lambda>n ty v. scan L ch = emit L n ty v \<and> 0 < n \<and> length (lexeme_of ty v) = n \<and>
           take n (rest L) = lexeme_of ty v \<and>
           \<not> (ty = ''OPERATOR'' \<and> v = ''//'') \<and> \<not> (ty = ''COMMENT'' \<and> ch \<noteq> CHR ''/'')"
  have single: "?P 1 ty [ch]"
    if "scan L ch = advance (add_token L ty [ch] (line L) (column L))"
      and "ty \<noteq> ''NEWLINE''" and "ty \<noteq> ''COMMENT''" for ty
    using that r by (simp add: single_emit lexeme_of_def)
  show ?thesis
  proof (cases "dispatch ch (peek_char L)")
    case Newline
    then have "ch = NL" by (rule dispatch_Newline)
    then have "?P 1 ''NEWLINE'' [BACKSLASH, CHR ''n'']"
      using Newline r by (simp add: scan_def lex_newline_emit lexeme_of_def)
    then show ?thesis by blast
  next
    case Preprocessor
    then have "ch = CHR ''#''" by (rule dispatch_Preprocessor)
    then have "?P (length (takeWhile (\<lambda>c. c \<noteq> NL) (rest L))) ''PREPROCESSOR''
                 (takeWhile (\<lambda>c. c \<noteq> NL) (rest L))"
      using Preprocessor r
      by (simp add: scan_def lex_preprocessor_emit lexeme_of_def takeWhile_prefix)
    then show ?thesis by blast
  next
    case LineComment
    then have "ch = CHR ''/''" by (rule dispatch_LineComment)
    then have "?P (length (takeWhile (\<lambda>c. c \<noteq> NL) (rest L))) ''COMMENT''
                 (takeWhile (\<lambda>c. c \<noteq> NL) (rest L))"
      using LineComment r
      by (simp add: scan_def lex_single_comment_emit lexeme_of_def takeWhile_prefix)
    then show ?thesis by blast
  next
    case BlockComment
    then have c: "ch = CHR ''/''" and pk: "peek_char L = Some CHR ''*''"
      using dispatch_BlockComment by blast+
    from pk r obtain ds where ds: "cs = CHR ''*'' # ds"
      by (cases cs) (simp_all add: peek_char_rest)
    have "?P (2 + length (block_run (drop 2 (rest L)))) ''COMMENT''
            (''/*'' @ block_run (drop 2 (rest L)))"
      using BlockComment r c ds
      by (simp add: scan_def lex_multi_comment_emit lexeme_of_def block_run_prefix
          numeral_2_eq_2)
    then show ?thesis by blast
  next
    case HashComment
    then show ?thesis by (simp add: dispatch_not_HashComment)
  next
    case Number
    then have d: "isdigit ch" by (rule dispatch_Number)
    then have nd: "ch \<noteq> CHR ''.''" using not_isdigit_dot by blast
    have "?P (length (number_run False (rest L)))
            (if CHR ''.'' \<in> set (number_run False (rest L)) then ''FLOAT'' else ''INTEGER'')
            (number_run False (rest L))"
      using Number r d nd
      by (simp add: scan_def lex_number_emit lexeme_of_def number_run_prefix)
    then show ?thesis by blast
  next
    case Identifier
    then have "isalpha ch \<or> ch = CHR ''_''" by (rule dispatch_Identifier)
    then have a: "isalnum ch \<or> ch = CHR ''_''" using isalpha_isalnum by blast
    have "?P (length (takeWhile (\<lambda>c. isalnum c \<or> c = CHR ''_'') (rest L)))
            (if takeWhile (\<lambda>c. isalnum c \<or> c = CHR ''_'') (rest L) \<in> set TOKEN_TYPES_KEYWORD
             then ''KEYWORD'' else ''IDENTIFIER'')
            (takeWhile (\<lambda>c. isalnum c \<or> c = CHR ''_'') (rest L))"
      using Identifier r a
      by (simp add: scan_def lex_identifier_emit lexeme_of_def takeWhile_prefix)
    then show ?thesis by blast
  next
    case String
    have "?P (length (string_value ch (tl (rest L)))) ''STRING'' (string_value ch (tl (rest L)))"
      using String r string_value_prefix [of ch cs]
      by (simp add: scan_def lex_string_emit lexeme_of_def) (simp add: string_value_def)
    then show ?thesis by blast
  next
    case (MultiOp two)
    then obtain p where pk: "peek_char L = Some p" and two: "two = [ch, p]"
      and ne: "two \<noteq> ''//''"
      using dispatch_MultiOp by blast
    from pk r obtain ds where ds: "cs = p # ds"
      by (cases cs) (simp_all add: peek_char_rest)
    have "?P 2 ''OPERATOR'' two"
      using MultiOp r two ne ds by (simp add: scan_def multi_op_emit lexeme_of_def)
    then show ?thesis by blast
  next
    case SingleOp
    have "?P 1 ''OPERATOR'' [ch]" using SingleOp by (intro single) (simp_all add: scan_def)
    then show ?thesis by blast
  next
    case Delimiter
    have "?P 1 ''DELIMITER'' [ch]" using Delimiter by (intro single) (simp_all add: scan_def)
    then show ?thesis by blast
  next
    case Unknown
    have "?P 1 ''UNKNOWN'' [ch]" using Unknown by (intro single) (simp_all add: scan_def)
    then show ?thesis by blast
  qed
qed

lemma source_emit [simp]: "source (emit L n ty v) = source L"
  by (simp add: emit_def add_token_def)

lemma pos_emit [simp]: "pos (emit L n ty v) = pos L + n"
  by (simp add: emit_def add_token_def)

lemma rest_emit [simp]: "rest (emit L n ty v) = drop n (rest L)"
proof -
  have "rest (add_token M a b c d) = rest M" for M a b c d
    by (simp add: rest_def add_token_def)
  then show ?thesis by (simp add: emit_def)
qed

lemma tokens_emit [simp]:
  "tokens (emit L n ty v) =
     tokens L @ [\<lparr>ttype = ty, tvalue = v, tline = line L, tcolumn = column L\<rparr>]"
  by (simp add: emit_def add_token_def)

lemma line_emit [simp]: "line (emit L n ty v) = line (advance_n n L)"
  by (simp add: emit_def add_token_def)

lemma column_emit [simp]: "column (emit L n ty v) = column (advance_n n L)"
  by (simp add: emit_def add_token_def)

lemma rest_skip_whitespace: "rest (skip_whitespace L) = dropWhile is_ws (rest L)"
  by (simp add: skip_whitespace_run dropWhile_eq_drop)

lemma rest_Nil_iff: "rest L = [] \<longleftrightarrow> \<not> pos L < length (source L)"
  by (auto simp: rest_def)

text \<open>
  The rule of the loop: an invariant that holds at the start, that skipping whitespace
  keeps and that one scan at a character that is not whitespace keeps, holds of the state
  the loop returns; and the loop does return, with the whole input passed.
\<close>

lemma tokenize_loop_rule:
  assumes "I L"
    and ws: "\<And>M. I M \<Longrightarrow> I (skip_whitespace M)"
    and sc: "\<And>M ch cs. I M \<Longrightarrow> rest M = ch # cs \<Longrightarrow> \<not> is_ws ch \<Longrightarrow> I (scan M ch)"
  shows "\<exists>L'. tokenize_loop L = Some L' \<and> I L' \<and> rest L' = [] \<and> source L' = source L"
  using assms(1)
proof (induction "length (rest L)" arbitrary: L rule: less_induct)
  case less
  show ?case
  proof (cases "rest L = []")
    case True
    then have "tokenize_loop L = Some L"
      by (subst tokenize_loop.simps) (simp add: rest_Nil_iff)
    then show ?thesis using True less(2) by simp
  next
    case False
    then have lt: "pos L < length (source L)" by (simp add: rest_Nil_iff)
    define L1 where "L1 = skip_whitespace L"
    have I1: "I L1" unfolding L1_def using less(2) by (rule ws)
    have r1: "rest L1 = dropWhile is_ws (rest L)" by (simp add: L1_def rest_skip_whitespace)
    have s1: "source L1 = source L" by (simp add: L1_def skip_whitespace_run)
    show ?thesis
    proof (cases "rest L1")
      case Nil
      then have "current_char L1 = None" by (rule current_char_Nil)
      then have "tokenize_loop L = Some L1"
        using lt by (subst tokenize_loop.simps) (simp add: L1_def [symmetric])
      then show ?thesis using I1 Nil s1 by simp
    next
      case (Cons ch cs)
      then have cur: "current_char L1 = Some ch" by (rule current_char_Cons)
      have nws: "\<not> is_ws ch" using Cons r1 hd_dropWhile [of is_ws "rest L"] by auto
      from scan_emit [OF Cons] obtain n ty v where
        e: "scan L1 ch = emit L1 n ty v" and n: "0 < n" by blast
      have "length (rest (scan L1 ch)) < length (rest L1)" using e n Cons by simp
      also have "\<dots> \<le> length (rest L)" by (simp add: r1 length_dropWhile_le)
      finally have dec: "length (rest (scan L1 ch)) < length (rest L)" .
      have "I (scan L1 ch)" using I1 Cons nws by (rule sc)
      from less(1) [OF dec this] obtain L' where
        "tokenize_loop (scan L1 ch) = Some L'" "I L'" "rest L' = []"
        "source L' = source (scan L1 ch)" by blast
      moreover have "tokenize_loop L = tokenize_loop (scan L1 ch)"
        using lt cur by (subst tokenize_loop.simps) (simp add: L1_def [symmetric])
      ultimately show ?thesis using e s1 by simp
    qed
  qed
qed

lemma spans_append_ws:
  "spans p r xs = Some sp \<Longrightarrow> list_all is_ws g \<Longrightarrow> spans p (r @ g) xs = Some sp"
proof (induction xs arbitrary: p r sp)
  case Nil
  then show ?case by (simp split: if_splits)
next
  case (Cons y ys)
  define k where "k = length (takeWhile is_ws r)"
  define r' where "r' = drop k r"
  from Cons(2) have y: "y \<noteq> []" and tk: "take (length y) r' = y"
    by (auto simp: Let_def k_def r'_def split: if_splits)
  from Cons(2) y tk obtain sp' where
    sp': "spans (p + k + length y) (drop (length y) r') ys = Some sp'"
    and sp: "sp = (p + k, p + k + length y) # sp'"
    by (auto simp: Let_def k_def r'_def)
  have r'_ne: "r' \<noteq> []" using y tk by auto
  have r'_dw: "r' = dropWhile is_ws r" by (simp add: r'_def k_def dropWhile_eq_drop)
  then obtain z where z: "z \<in> set r" "\<not> is_ws z"
    using r'_ne by (metis dropWhile_eq_Nil_conv)
  have tw: "takeWhile is_ws (r @ g) = takeWhile is_ws r"
    using z by (rule takeWhile_append1)
  have kr: "k \<le> length r" by (simp add: k_def length_takeWhile_le)
  have "length (take (length y) r') = length y" using tk by simp
  then have ly: "length y \<le> length r'" by simp
  have d: "drop k (r @ g) = r' @ g" using kr by (simp add: r'_def)
  have "spans (p + k + length y) (drop (length y) r' @ g) ys = Some sp'"
    using sp' Cons(3) by (rule Cons(1))
  moreover have "take (length y) (r' @ g) = y" using tk ly by simp
  moreover have "drop (length y) (r' @ g) = drop (length y) r' @ g" using ly by simp
  ultimately show ?case using y
    by (simp add: Let_def tw k_def [symmetric] d sp del: drop_append take_append)
qed

lemma spans_append_lexeme:
  "spans p r xs = Some sp \<Longrightarrow> x \<noteq> [] \<Longrightarrow> \<not> is_ws (hd x) \<Longrightarrow>
     spans p (r @ x) (xs @ [x]) = Some (sp @ [(p + length r, p + length r + length x)])"
proof (induction xs arbitrary: p r sp)
  case Nil
  then have all: "list_all is_ws r" and sp: "sp = []" by (auto split: if_splits)
  have "takeWhile is_ws (r @ x) = r @ takeWhile is_ws x"
    using all by (simp add: takeWhile_append2 list_all_iff)
  moreover have "takeWhile is_ws x = []" using Nil(2,3) by (cases x) simp_all
  ultimately have tw: "takeWhile is_ws (r @ x) = r" by simp
  show ?case using Nil(2) by (simp add: Let_def tw sp)
next
  case (Cons y ys)
  define k where "k = length (takeWhile is_ws r)"
  define r' where "r' = drop k r"
  from Cons(2) have y: "y \<noteq> []" and tk: "take (length y) r' = y"
    by (auto simp: Let_def k_def r'_def split: if_splits)
  from Cons(2) y tk obtain sp' where
    sp': "spans (p + k + length y) (drop (length y) r') ys = Some sp'"
    and sp: "sp = (p + k, p + k + length y) # sp'"
    by (auto simp: Let_def k_def r'_def)
  have r'_ne: "r' \<noteq> []" using y tk by auto
  have r'_dw: "r' = dropWhile is_ws r" by (simp add: r'_def k_def dropWhile_eq_drop)
  then obtain z where z: "z \<in> set r" "\<not> is_ws z"
    using r'_ne by (metis dropWhile_eq_Nil_conv)
  have tw: "takeWhile is_ws (r @ x) = takeWhile is_ws r"
    using z by (rule takeWhile_append1)
  have kr: "k \<le> length r" by (simp add: k_def length_takeWhile_le)
  have "length (take (length y) r') = length y" using tk by simp
  then have ly: "length y \<le> length r'" by simp
  have d: "drop k (r @ x) = r' @ x" using kr by (simp add: r'_def)
  have len: "p + k + length y + length (drop (length y) r') = p + length r"
    using kr ly by (simp add: r'_def)
  have "spans (p + k + length y) (drop (length y) r' @ x) (ys @ [x]) =
          Some (sp' @ [(p + k + length y + length (drop (length y) r'),
                        p + k + length y + length (drop (length y) r') + length x)])"
    using sp' Cons(3,4) by (rule Cons(1))
  moreover have "take (length y) (r' @ x) = y" using tk ly by simp
  moreover have "drop (length y) (r' @ x) = drop (length y) r' @ x" using ly by simp
  ultimately show ?case using y unfolding len
    by (simp add: Let_def tw k_def [symmetric] d sp del: drop_append take_append)
qed

section \<open>Invariants of the loop of tokenize\<close>

lemma lc_less_trans: "lc_less a b \<Longrightarrow> lc_less b c \<Longrightarrow> lc_less a c"
  by (auto simp: lc_less_def)

lemma cursor_advance: "lc_less (cursor L) (cursor (advance L))"
  by (simp add: cursor_def advance_def lc_less_def)

lemma cursor_advance_n:
  "cursor (advance_n n L) = cursor L \<or> lc_less (cursor L) (cursor (advance_n n L))"
proof (induction n arbitrary: L)
  case 0
  then show ?case by simp
next
  case (Suc n)
  from Suc [of "advance L"] cursor_advance [of L] show ?case
    by (auto intro: lc_less_trans)
qed

lemma cursor_advance_n_pos: "0 < n \<Longrightarrow> lc_less (cursor L) (cursor (advance_n n L))"
proof (cases n)
  case 0
  assume "0 < n" with 0 show ?thesis by simp
next
  case (Suc m)
  from cursor_advance_n [of m "advance L"] cursor_advance [of L] show ?thesis
    by (auto simp: Suc intro: lc_less_trans)
qed

lemma cursor_emit [simp]: "cursor (emit L n ty v) = cursor (advance_n n L)"
  by (simp add: cursor_def)

lemma tokens_skip_whitespace [simp]: "tokens (skip_whitespace L) = tokens L"
  by (simp add: skip_whitespace_run)

lemma source_skip_whitespace [simp]: "source (skip_whitespace L) = source L"
  by (simp add: skip_whitespace_run)

lemma take_pos_rest: "take (pos L + n) (source L) = take (pos L) (source L) @ take n (rest L)"
  by (simp add: rest_def take_add)

lemma tiled_skip_whitespace:
  assumes "tiled_so_far M"
  shows "tiled_so_far (skip_whitespace M)"
proof -
  define k where "k = length (takeWhile is_ws (rest M))"
  have kle: "k \<le> length (rest M)" by (simp add: k_def length_takeWhile_le)
  have tk: "take k (rest M) = takeWhile is_ws (rest M)" by (simp add: k_def takeWhile_prefix)
  have ws: "list_all is_ws (take k (rest M))"
    unfolding tk by (simp add: list_all_iff) (meson set_takeWhileD)
  from assms obtain sp where
    sp: "spans 0 (take (pos M) (source M)) (map lexeme (tokens M)) = Some sp"
    and le: "pos M \<le> length (source M)"
    by (auto simp: tiled_so_far_def)
  have "spans 0 (take (pos M + k) (source M)) (map lexeme (tokens M)) = Some sp"
    unfolding take_pos_rest using sp ws by (rule spans_append_ws)
  moreover have "pos M + k \<le> length (source M)" using kle le by (simp add: rest_def)
  ultimately show ?thesis
    by (simp add: tiled_so_far_def skip_whitespace_run k_def [symmetric])
qed

lemma tiled_scan:
  assumes "tiled_so_far M" and r: "rest M = ch # cs" and nws: "\<not> is_ws ch"
  shows "tiled_so_far (scan M ch)"
proof -
  from scan_emit [OF r] obtain n ty v where
    e: "scan M ch = emit M n ty v" and n: "0 < n"
    and len: "length (lexeme_of ty v) = n" and tk: "take n (rest M) = lexeme_of ty v"
    by blast
  define x where "x = lexeme_of ty v"
  have x_ne: "x \<noteq> []" using len n by (auto simp: x_def)
  have "hd (take n (rest M)) = ch" using r n by (cases n) simp_all
  then have hd: "\<not> is_ws (hd x)" using nws tk by (simp add: x_def)
  have "length (take n (rest M)) = n" using tk len by simp
  then have nle: "n \<le> length (rest M)" by simp
  from assms(1) obtain sp where
    sp: "spans 0 (take (pos M) (source M)) (map lexeme (tokens M)) = Some sp"
    and le: "pos M \<le> length (source M)"
    by (auto simp: tiled_so_far_def)
  have "spans 0 (take (pos M) (source M) @ x) (map lexeme (tokens M) @ [x]) =
          Some (sp @ [(0 + length (take (pos M) (source M)),
                       0 + length (take (pos M) (source M)) + length x)])"
    using sp x_ne hd by (rule spans_append_lexeme)
  then have "spans 0 (take (pos M + n) (source M)) (map lexeme (tokens M) @ [x]) \<noteq> None"
    unfolding take_pos_rest tk x_def by simp
  moreover have "pos M + n \<le> length (source M)" using nle le by (simp add: rest_def)
  ultimately show ?thesis
    by (simp add: tiled_so_far_def e lexeme_def x_def)
qed

lemma rest_Lexer [simp]: "rest (Lexer src) = src"
  by (simp add: rest_def Lexer_def)

lemma tokenize_loop_tiles:
  "\<exists>L'. tokenize_loop (Lexer src) = Some L' \<and> source L' = src \<and> pos L' = length src \<and>
        spans 0 src (map lexeme (tokens L')) \<noteq> None"
proof -
  have "\<exists>L'. tokenize_loop (Lexer src) = Some L' \<and> tiled_so_far L' \<and> rest L' = [] \<and>
          source L' = source (Lexer src)"
  proof (rule tokenize_loop_rule [where I = tiled_so_far])
    show "tiled_so_far (Lexer src)" by (simp add: tiled_so_far_def Lexer_def)
  qed (fact tiled_skip_whitespace, rule tiled_scan)
  then obtain L' where L': "tokenize_loop (Lexer src) = Some L'" "tiled_so_far L'" "rest L' = []"
    "source L' = source (Lexer src)"
    by blast
  have s: "source L' = src" using L'(4) by (simp add: Lexer_def)
  have "pos L' = length src" using L'(2,3) s by (auto simp: tiled_so_far_def rest_def)
  then show ?thesis using L' s by (auto simp: tiled_so_far_def)
qed

lemma spans_Cons_elim:
  assumes "spans p r (y # ys) = Some sp"
  obtains sp' where "y \<noteq> []"
    and "take (length y) (dropWhile is_ws r) = y"
    and "spans (p + length (takeWhile is_ws r) + length y)
           (drop (length y) (dropWhile is_ws r)) ys = Some sp'"
    and "sp = (p + length (takeWhile is_ws r), p + length (takeWhile is_ws r) + length y) # sp'"
  using assms by (auto simp: Let_def dropWhile_eq_drop split: if_splits)

lemma spans_length: "spans p r xs = Some sp \<Longrightarrow> length sp = length xs"
proof (induction xs arbitrary: p r sp)
  case Nil
  then show ?case by (simp split: if_splits)
next
  case (Cons y ys)
  from Cons(2) show ?case by (rule spans_Cons_elim) (auto dest: Cons(1))
qed

lemma lexeme_fits:
  assumes "y \<noteq> []" and "take (length y) (dropWhile is_ws r) = y"
  shows "length (takeWhile is_ws r) + length y \<le> length r"
proof -
  have "length (take (length y) (dropWhile is_ws r)) = length y" using assms(2) by simp
  then have "length y \<le> length (dropWhile is_ws r)" by simp
  moreover have "length (takeWhile is_ws r) + length (dropWhile is_ws r) = length r"
    by (metis length_append takeWhile_dropWhile_id)
  ultimately show ?thesis by simp
qed

lemma spans_bounds:
  "spans p r xs = Some sp \<Longrightarrow> (a, b) \<in> set sp \<Longrightarrow> p \<le> a \<and> a < b \<and> b \<le> p + length r"
proof (induction xs arbitrary: p r sp)
  case Nil
  then show ?case by (simp split: if_splits)
next
  case (Cons y ys)
  from Cons(2) show ?case
  proof (rule spans_Cons_elim)
    fix sp'
    assume y: "y \<noteq> []" and tk: "take (length y) (dropWhile is_ws r) = y"
      and sp': "spans (p + length (takeWhile is_ws r) + length y)
                  (drop (length y) (dropWhile is_ws r)) ys = Some sp'"
      and sp: "sp = (p + length (takeWhile is_ws r), p + length (takeWhile is_ws r) + length y) # sp'"
    have fit: "length (takeWhile is_ws r) + length y \<le> length r" using y tk by (rule lexeme_fits)
    have len: "length (drop (length y) (dropWhile is_ws r)) =
                 length r - (length (takeWhile is_ws r) + length y)"
      by (simp add: dropWhile_eq_drop)
    show ?thesis
    proof (cases "(a, b) \<in> set sp'")
      case True
      from Cons(1) [OF sp' True] show ?thesis using fit unfolding len by simp
    next
      case False
      then have "a = p + length (takeWhile is_ws r)"
        and "b = p + length (takeWhile is_ws r) + length y"
        using Cons(3) sp by auto
      then show ?thesis using y fit by simp
    qed
  qed
qed

lemma spans_sorted:
  "spans p r xs = Some sp \<Longrightarrow> sorted_wrt (\<lambda>u v. snd u \<le> fst v) sp"
proof (induction xs arbitrary: p r sp)
  case Nil
  then show ?case by (simp split: if_splits)
next
  case (Cons y ys)
  from Cons(2) show ?case
  proof (rule spans_Cons_elim)
    fix sp'
    assume sp': "spans (p + length (takeWhile is_ws r) + length y)
                  (drop (length y) (dropWhile is_ws r)) ys = Some sp'"
      and sp: "sp = (p + length (takeWhile is_ws r), p + length (takeWhile is_ws r) + length y) # sp'"
    have "p + length (takeWhile is_ws r) + length y \<le> fst v" if "v \<in> set sp'" for v
      using spans_bounds [OF sp', of "fst v" "snd v"] that by simp
    then show ?thesis using Cons(1) [OF sp'] sp by simp
  qed
qed

lemma spans_text:
  "spans p r xs = Some sp \<Longrightarrow> k < length xs \<Longrightarrow>
     snd (sp ! k) = fst (sp ! k) + length (xs ! k) \<and>
     take (length (xs ! k)) (drop (fst (sp ! k) - p) r) = xs ! k"
proof (induction xs arbitrary: p r sp k)
  case Nil
  then show ?case by simp
next
  case (Cons y ys)
  from Cons(2) show ?case
  proof (rule spans_Cons_elim)
    fix sp'
    assume y: "y \<noteq> []" and tk: "take (length y) (dropWhile is_ws r) = y"
      and sp': "spans (p + length (takeWhile is_ws r) + length y)
                  (drop (length y) (dropWhile is_ws r)) ys = Some sp'"
      and sp: "sp = (p + length (takeWhile is_ws r), p + length (takeWhile is_ws r) + length y) # sp'"
    show ?thesis
    proof (cases k)
      case 0
      then show ?thesis using sp tk by (simp add: dropWhile_eq_drop)
    next
      case (Suc j)
      then have j: "j < length ys" using Cons(3) by simp
      have "j < length sp'" using j spans_length [OF sp'] by simp
      then have "(fst (sp' ! j), snd (sp' ! j)) \<in> set sp'" by simp
      from spans_bounds [OF sp' this]
      have ge: "p + length (takeWhile is_ws r) + length y \<le> fst (sp' ! j)" by simp
      have "drop (fst (sp' ! j) - (p + length (takeWhile is_ws r) + length y))
              (drop (length y) (dropWhile is_ws r)) = drop (fst (sp' ! j) - p) r"
        using ge by (simp add: dropWhile_eq_drop)
      with Cons(1) [OF sp' j] show ?thesis using Suc sp by simp
    qed
  qed
qed

lemma spans_cover:
  "spans p r xs = Some sp \<Longrightarrow> i < length r \<Longrightarrow>
     is_ws (r ! i) \<or> (\<exists>k<length sp. fst (sp ! k) \<le> p + i \<and> p + i < snd (sp ! k))"
proof (induction xs arbitrary: p r sp i)
  case Nil
  then show ?case by (auto simp: list_all_length split: if_splits)
next
  case (Cons y ys)
  from Cons(2) show ?case
  proof (rule spans_Cons_elim)
    fix sp'
    assume y: "y \<noteq> []" and tk: "take (length y) (dropWhile is_ws r) = y"
      and sp': "spans (p + length (takeWhile is_ws r) + length y)
                  (drop (length y) (dropWhile is_ws r)) ys = Some sp'"
      and sp: "sp = (p + length (takeWhile is_ws r), p + length (takeWhile is_ws r) + length y) # sp'"
    define g where "g = length (takeWhile is_ws r)"
    consider "i < g" | "g \<le> i" "i < g + length y" | "g + length y \<le> i" by linarith
    then show ?thesis
    proof cases
      case 1
      then have "takeWhile is_ws r ! i = r ! i" unfolding g_def by (rule takeWhile_nth)
      moreover have "takeWhile is_ws r ! i \<in> set (takeWhile is_ws r)"
        using 1 by (simp add: g_def)
      ultimately have "is_ws (r ! i)" by (metis set_takeWhileD)
      then show ?thesis by simp
    next
      case 2
      then have "fst (sp ! 0) \<le> p + i \<and> p + i < snd (sp ! 0)" by (simp add: sp g_def)
      moreover have "0 < length sp" by (simp add: sp)
      ultimately show ?thesis by blast
    next
      case 3
      define i' where "i' = i - (g + length y)"
      have dr: "drop (length y) (dropWhile is_ws r) = drop (g + length y) r"
        by (simp add: dropWhile_eq_drop g_def add.commute)
      have i': "i' < length (drop (length y) (dropWhile is_ws r))"
        using 3 Cons(3) unfolding dr by (simp add: i'_def)
      have nth: "drop (length y) (dropWhile is_ws r) ! i' = r ! i"
        using 3 Cons(3) unfolding dr by (simp add: i'_def)
      have pi: "p + length (takeWhile is_ws r) + length y + i' = p + i"
        using 3 by (simp add: i'_def g_def)
      from Cons(1) [OF sp' i'] show ?thesis unfolding nth pi
      proof
        assume "is_ws (r ! i)" then show ?thesis by simp
      next
        assume "\<exists>k<length sp'. fst (sp' ! k) \<le> p + i \<and> p + i < snd (sp' ! k)"
        then obtain k where "k < length sp'" "fst (sp' ! k) \<le> p + i" "p + i < snd (sp' ! k)"
          by blast
        then have "Suc k < length sp \<and> fst (sp ! Suc k) \<le> p + i \<and> p + i < snd (sp ! Suc k)"
          by (simp add: sp)
        then show ?thesis by blast
      qed
    qed
  qed
qed

lemma iteration_progress:
  assumes lt: "pos L < length (source L)"
  shows "pos L \<le> pos (skip_whitespace L) \<and>
     (case current_char (skip_whitespace L) of
        None \<Rightarrow> pos L < pos (skip_whitespace L) \<and> pos (skip_whitespace L) = length (source L)
      | Some ch \<Rightarrow>
          pos (skip_whitespace L) < pos (scan (skip_whitespace L) ch) \<and>
          pos (scan (skip_whitespace L) ch) \<le> length (source L))"
proof -
  define L1 where "L1 = skip_whitespace L"
  have p1: "pos L1 = pos L + length (takeWhile is_ws (rest L))"
    by (simp add: L1_def skip_whitespace_run)
  have s1: "source L1 = source L" by (simp add: L1_def)
  have le1: "pos L1 \<le> length (source L)"
    using lt length_takeWhile_le [of is_ws "rest L"] by (simp add: p1 rest_def)
  have "case current_char L1 of
        None \<Rightarrow> pos L < pos L1 \<and> pos L1 = length (source L)
      | Some ch \<Rightarrow> pos L1 < pos (scan L1 ch) \<and> pos (scan L1 ch) \<le> length (source L)"
  proof (cases "rest L1")
    case Nil
    then have "pos L1 = length (source L)" using le1 s1 by (simp add: rest_def)
    then show ?thesis using lt current_char_Nil [OF Nil] by simp
  next
    case (Cons ch cs)
    from scan_emit [OF Cons] obtain n ty v where
      e: "scan L1 ch = emit L1 n ty v" and n: "0 < n"
      and len: "length (lexeme_of ty v) = n" and tk: "take n (rest L1) = lexeme_of ty v"
      by blast
    have "length (take n (rest L1)) = n" using tk len by simp
    then have "n \<le> length (rest L1)" by simp
    then have "pos L1 + n \<le> length (source L)" using le1 s1 by (simp add: rest_def)
    then show ?thesis using n e current_char_Cons [OF Cons] by simp
  qed
  then show ?thesis using p1 unfolding L1_def by simp
qed

lemma ordered_skip_whitespace:
  assumes "ordered_so_far M"
  shows "ordered_so_far (skip_whitespace M)"
proof -
  define k where "k = length (takeWhile is_ws (rest M))"
  have "lc_less (position t) (cursor (advance_n k M))" if "t \<in> set (tokens M)" for t
  proof -
    have "lc_less (position t) (cursor M)" using assms that by (simp add: ordered_so_far_def)
    then show ?thesis using cursor_advance_n [of k M] by (auto intro: lc_less_trans)
  qed
  then show ?thesis using assms
    by (simp add: ordered_so_far_def skip_whitespace_run k_def [symmetric])
qed

lemma ordered_scan:
  assumes "ordered_so_far M" and r: "rest M = ch # cs" and "\<not> is_ws ch"
  shows "ordered_so_far (scan M ch)"
proof -
  from scan_emit [OF r] obtain n ty v where
    e: "scan M ch = emit M n ty v" and n: "0 < n" by blast
  define t where "t = \<lparr>ttype = ty, tvalue = v, tline = line M, tcolumn = column M\<rparr>"
  have pt: "position t = cursor M" by (simp add: t_def position_def cursor_def)
  have up: "lc_less (cursor M) (cursor (advance_n n M))" using n by (rule cursor_advance_n_pos)
  have old: "lc_less (position u) (cursor M)" if "u \<in> set (tokens M)" for u
    using assms(1) that by (simp add: ordered_so_far_def)
  have "sorted_wrt lc_less (map position (tokens M @ [t]))"
    using assms(1) old by (simp add: ordered_so_far_def sorted_wrt_append pt)
  moreover have "lc_less (position u) (cursor (advance_n n M))" if "u \<in> set (tokens M @ [t])" for u
    using that old up pt by (auto intro: lc_less_trans)
  ultimately show ?thesis
    by (simp add: ordered_so_far_def e t_def [symmetric])
qed

lemma tokenize_loop_ordered:
  "\<exists>L'. tokenize_loop (Lexer src) = Some L' \<and> sorted_wrt lc_less (map position (tokens L'))"
proof -
  have "\<exists>L'. tokenize_loop (Lexer src) = Some L' \<and> ordered_so_far L' \<and> rest L' = [] \<and>
          source L' = source (Lexer src)"
  proof (rule tokenize_loop_rule [where I = ordered_so_far])
    show "ordered_so_far (Lexer src)" by (simp add: ordered_so_far_def Lexer_def)
  qed (fact ordered_skip_whitespace, rule ordered_scan)
  then show ?thesis by (auto simp: ordered_so_far_def)
qed

lemma tokenize_loop_no_slash_operator:
  "\<exists>L'. tokenize_loop (Lexer src) = Some L' \<and> no_slash_operator L'"
proof -
  have "\<exists>L'. tokenize_loop (Lexer src) = Some L' \<and> no_slash_operator L' \<and> rest L' = [] \<and>
          source L' = source (Lexer src)"
  proof (rule tokenize_loop_rule [where I = no_slash_operator])
    show "no_slash_operator (Lexer src)" by (simp add: no_slash_operator_def Lexer_def)
  next
    fix M assume "no_slash_operator M"
    then show "no_slash_operator (skip_whitespace M)" by (simp add: no_slash_operator_def)
  next
    fix M ch cs assume I: "no_slash_operator M" and r: "rest M = ch # cs"
    from scan_emit [OF r] obtain n ty v where
      "scan M ch = emit M n ty v" "\<not> (ty = ''OPERATOR'' \<and> v = ''//'')" by blast
    then show "no_slash_operator (scan M ch)" using I by (simp add: no_slash_operator_def)
  qed
  then show ?thesis by blast
qed

lemma tokenize_loop_comments:
  "\<exists>L'. tokenize_loop (Lexer src) = Some L' \<and> comments_start_with_slash L'"
proof -
  have "\<exists>L'. tokenize_loop (Lexer src) = Some L' \<and> comments_start_with_slash L' \<and> rest L' = [] \<and>
          source L' = source (Lexer src)"
  proof (rule tokenize_loop_rule [where I = comments_start_with_slash])
    show "comments_start_with_slash (Lexer src)"
      by (simp add: comments_start_with_slash_def Lexer_def)
  next
    fix M assume "comments_start_with_slash M"
    then show "comments_start_with_slash (skip_whitespace M)"
      by (simp add: comments_start_with_slash_def)
  next
    fix M ch cs assume I: "comments_start_with_slash M" and r: "rest M = ch # cs"
    from scan_emit [OF r] obtain n ty v where
      e: "scan M ch = emit M n ty v" and n: "0 < n"
      and tk: "take n (rest M) = lexeme_of ty v"
      and c: "\<not> (ty = ''COMMENT'' \<and> ch \<noteq> CHR ''/'')" by blast
    have "take 1 v = ''/''" if "ty = ''COMMENT''"
    proof -
      have "v = take n (ch # cs)" using tk r that by (simp add: lexeme_of_def)
      moreover have "ch = CHR ''/''" using c that by simp
      ultimately show ?thesis using n by (cases n) simp_all
    qed
    then show "comments_start_with_slash (scan M ch)" using I e
      by (auto simp: comments_start_with_slash_def)
  qed
  then show ?thesis by blast
qed

section \<open>The claims\<close>

text \<open>
  Claim C3. For every input, \<open>tokenize\<close> returns, and every character of the input is
  accounted for exactly once: the lexemes of the tokens, in order, sit at the spans \<open>sp\<close>
  of the input, each span is not empty and holds the source text of its token, the spans
  follow one another without overlap, and every character outside the spans is a space, a
  tab or a carriage return. Every pass of the loop over an input that is not finished
  moves the cursor forward: the whitespace skipped never moves it back, and then either
  a scan passes at least one character, or only whitespace was left and it was passed.
\<close>

theorem C3_every_character_accounted_for:
  "(\<exists>ts sp. tokenize (Lexer src) = Some ts \<and>
      spans 0 src (map lexeme ts) = Some sp \<and> length sp = length ts \<and>
      (\<forall>k<length ts.
         fst (sp ! k) < snd (sp ! k) \<and> snd (sp ! k) \<le> length src \<and>
         take (snd (sp ! k) - fst (sp ! k)) (drop (fst (sp ! k)) src) = lexeme (ts ! k)) \<and>
      sorted_wrt (\<lambda>u v. snd u \<le> fst v) sp \<and>
      (\<forall>i<length src.
         is_ws (src ! i) \<or> (\<exists>k<length sp. fst (sp ! k) \<le> i \<and> i < snd (sp ! k)))) \<and>
   (pos L < length (source L) \<longrightarrow>
      pos L \<le> pos (skip_whitespace L) \<and>
      (case current_char (skip_whitespace L) of
         None \<Rightarrow> pos L < pos (skip_whitespace L) \<and> pos (skip_whitespace L) = length (source L)
       | Some ch \<Rightarrow>
           pos (skip_whitespace L) < pos (scan (skip_whitespace L) ch) \<and>
           pos (scan (skip_whitespace L) ch) \<le> length (source L)))"
proof (intro conjI impI)
  from tokenize_loop_tiles [of src] obtain L' sp where
    L': "tokenize_loop (Lexer src) = Some L'"
    and sp: "spans 0 src (map lexeme (tokens L')) = Some sp"
    by blast
  define ts where "ts = tokens L'"
  have tk: "tokenize (Lexer src) = Some ts" by (simp add: tokenize_def L' ts_def)
  have sp': "spans 0 src (map lexeme ts) = Some sp" using sp by (simp add: ts_def)
  have len: "length sp = length ts" using spans_length [OF sp'] by simp
  have each: "fst (sp ! k) < snd (sp ! k) \<and> snd (sp ! k) \<le> length src \<and>
         take (snd (sp ! k) - fst (sp ! k)) (drop (fst (sp ! k)) src) = lexeme (ts ! k)"
    if k: "k < length ts" for k
  proof -
    have "(fst (sp ! k), snd (sp ! k)) \<in> set sp" using k len by simp
    from spans_bounds [OF sp' this] have b: "fst (sp ! k) < snd (sp ! k)" "snd (sp ! k) \<le> length src"
      by simp_all
    have "k < length (map lexeme ts)" using k by simp
    from spans_text [OF sp' this] k
    have "snd (sp ! k) = fst (sp ! k) + length (lexeme (ts ! k))"
      and "take (length (lexeme (ts ! k))) (drop (fst (sp ! k)) src) = lexeme (ts ! k)"
      by simp_all
    then show ?thesis using b by simp
  qed
  have cover: "is_ws (src ! i) \<or> (\<exists>k<length sp. fst (sp ! k) \<le> i \<and> i < snd (sp ! k))"
    if "i < length src" for i
    using spans_cover [OF sp' that] by simp
  show "\<exists>ts sp. tokenize (Lexer src) = Some ts \<and>
      spans 0 src (map lexeme ts) = Some sp \<and> length sp = length ts \<and>
      (\<forall>k<length ts.
         fst (sp ! k) < snd (sp ! k) \<and> snd (sp ! k) \<le> length src \<and>
         take (snd (sp ! k) - fst (sp ! k)) (drop (fst (sp ! k)) src) = lexeme (ts ! k)) \<and>
      sorted_wrt (\<lambda>u v. snd u \<le> fst v) sp \<and>
      (\<forall>i<length src.
         is_ws (src ! i) \<or> (\<exists>k<length sp. fst (sp ! k) \<le> i \<and> i < snd (sp ! k)))"
    using tk sp' len each spans_sorted [OF sp'] cover by blast
next
  assume "pos L < length (source L)"
  then show "pos L \<le> pos (skip_whitespace L)" using iteration_progress by blast
next
  assume "pos L < length (source L)"
  then show "case current_char (skip_whitespace L) of
         None \<Rightarrow> pos L < pos (skip_whitespace L) \<and> pos (skip_whitespace L) = length (source L)
       | Some ch \<Rightarrow>
           pos (skip_whitespace L) < pos (scan (skip_whitespace L) ch) \<and>
           pos (scan (skip_whitespace L) ch) \<le> length (source L)"
    using iteration_progress by blast
qed

lemma example_assignment:
  "tokenize (Lexer ''x = 1'') = Some
     [\<lparr>ttype = ''IDENTIFIER'', tvalue = ''x'', tline = 1, tcolumn = 1\<rparr>,
      \<lparr>ttype = ''OPERATOR'', tvalue = ''='', tline = 1, tcolumn = 3\<rparr>,
      \<lparr>ttype = ''INTEGER'', tvalue = ''1'', tline = 1, tcolumn = 5\<rparr>]"
  by code_simp

theorem C3_witness:
  "tokenize (Lexer ''x = 1'') = Some
     [\<lparr>ttype = ''IDENTIFIER'', tvalue = ''x'', tline = 1, tcolumn = 1\<rparr>,
      \<lparr>ttype = ''OPERATOR'', tvalue = ''='', tline = 1, tcolumn = 3\<rparr>,
      \<lparr>ttype = ''INTEGER'', tvalue = ''1'', tline = 1, tcolumn = 5\<rparr>] \<and>
   spans 0 ''x = 1'' [''x'', ''='', ''1''] = Some [(0, 1), (2, 3), (4, 5)] \<and>
   pos (Lexer ''x = 1'') < length (source (Lexer ''x = 1'')) \<and>
   current_char (skip_whitespace (Lexer ''x = 1'')) = Some (CHR ''x'') \<and>
   pos (skip_whitespace (Lexer ''x = 1'')) < pos (scan (skip_whitespace (Lexer ''x = 1'')) (CHR ''x''))"
proof -
  have cur: "current_char (skip_whitespace (Lexer ''x = 1'')) = Some (CHR ''x'')"
    by code_simp
  have lt: "pos (Lexer ''x = 1'') < length (source (Lexer ''x = 1''))"
    by (simp add: Lexer_def)
  have sp: "spans 0 ''x = 1'' [''x'', ''='', ''1''] = Some [(0, 1), (2, 3), (4, 5)]"
    by (simp add: is_ws_def)
  from C3_every_character_accounted_for [of "''x = 1''" "Lexer ''x = 1''"] lt cur
  have "pos (skip_whitespace (Lexer ''x = 1'')) < pos (scan (skip_whitespace (Lexer ''x = 1'')) (CHR ''x''))"
    by simp
  then show ?thesis using example_assignment sp lt cur by simp
qed

text \<open>
  Claim C4. The tokens that \<open>tokenize\<close> returns are in the strict order of their
  places in the source: the start offsets \<open>fst (sp ! k)\<close>, at which the lexemes sit in the
  input, grow strictly from each token to every later one, and the recorded pair of line
  and column of a token comes, in the lexicographic order \<open>lc_less\<close>, before the pair of
  every later token, so before the pair of the next one.
\<close>

theorem C4_tokens_ordered_by_position:
  "\<exists>ts sp. tokenize (Lexer src) = Some ts \<and>
      spans 0 src (map lexeme ts) = Some sp \<and> length sp = length ts \<and>
      (\<forall>k<length ts. take (length (lexeme (ts ! k))) (drop (fst (sp ! k)) src) = lexeme (ts ! k)) \<and>
      (\<forall>i j. i < j \<and> j < length ts \<longrightarrow> fst (sp ! i) < fst (sp ! j)) \<and>
      (\<forall>i j. i < j \<and> j < length ts \<longrightarrow> lc_less (position (ts ! i)) (position (ts ! j))) \<and>
      (\<forall>k. Suc k < length ts \<longrightarrow> lc_less (position (ts ! k)) (position (ts ! Suc k)))"
proof -
  from tokenize_loop_tiles [of src] obtain L' sp where
    L': "tokenize_loop (Lexer src) = Some L'"
    and sp: "spans 0 src (map lexeme (tokens L')) = Some sp"
    by blast
  from tokenize_loop_ordered [of src] L'
  have ord: "sorted_wrt lc_less (map position (tokens L'))" by auto
  define ts where "ts = tokens L'"
  have tk: "tokenize (Lexer src) = Some ts" by (simp add: tokenize_def L' ts_def)
  have sp': "spans 0 src (map lexeme ts) = Some sp" using sp by (simp add: ts_def)
  have len: "length sp = length ts" using spans_length [OF sp'] by simp
  have lexemes: "take (length (lexeme (ts ! k))) (drop (fst (sp ! k)) src) = lexeme (ts ! k)"
    if "k < length ts" for k
    using spans_text [OF sp', of k] that by simp
  have "sorted_wrt (\<lambda>u v. fst u < fst v) sp"
  proof (rule sorted_wrt_mono_rel [OF _ spans_sorted [OF sp']])
    fix u v assume "u \<in> set sp" and "snd u \<le> fst v"
    moreover from spans_bounds [OF sp', of "fst u" "snd u"] \<open>u \<in> set sp\<close>
    have "fst u < snd u" by simp
    ultimately show "fst u < fst v" by simp
  qed
  then have starts: "fst (sp ! i) < fst (sp ! j)" if "i < j" "j < length ts" for i j
    using that len by (simp add: sorted_wrt_iff_nth_less)
  have posn: "lc_less (position (ts ! i)) (position (ts ! j))" if "i < j" "j < length ts" for i j
    using ord that by (simp add: sorted_wrt_iff_nth_less ts_def)
  have adj: "lc_less (position (ts ! k)) (position (ts ! Suc k))" if "Suc k < length ts" for k
    using posn [of k "Suc k"] that by simp
  show ?thesis using tk sp' len lexemes starts posn adj by blast
qed

lemma example_two_lines:
  "tokenize (Lexer (''a b'' @ [NL] @ ''c'')) = Some
     [\<lparr>ttype = ''IDENTIFIER'', tvalue = ''a'', tline = 1, tcolumn = 1\<rparr>,
      \<lparr>ttype = ''IDENTIFIER'', tvalue = ''b'', tline = 1, tcolumn = 3\<rparr>,
      \<lparr>ttype = ''NEWLINE'', tvalue = [BACKSLASH, CHR ''n''], tline = 1, tcolumn = 4\<rparr>,
      \<lparr>ttype = ''IDENTIFIER'', tvalue = ''c'', tline = 2, tcolumn = 1\<rparr>]"
  by code_simp

theorem C4_witness:
  "tokenize (Lexer (''a b'' @ [NL] @ ''c'')) = Some
     [\<lparr>ttype = ''IDENTIFIER'', tvalue = ''a'', tline = 1, tcolumn = 1\<rparr>,
      \<lparr>ttype = ''IDENTIFIER'', tvalue = ''b'', tline = 1, tcolumn = 3\<rparr>,
      \<lparr>ttype = ''NEWLINE'', tvalue = [BACKSLASH, CHR ''n''], tline = 1, tcolumn = 4\<rparr>,
      \<lparr>ttype = ''IDENTIFIER'', tvalue = ''c'', tline = 2, tcolumn = 1\<rparr>] \<and>
   spans 0 (''a b'' @ [NL] @ ''c'') [''a'', ''b'', [NL], ''c''] = Some [(0, 1), (2, 3), (3, 4), (4, 5)] \<and>
   lc_less (1, 1) (1, 3) \<and> lc_less (1, 3) (1, 4) \<and> lc_less (1, 4) (2, 1)"
proof -
  let ?src = "''a b'' @ [NL] @ ''c''"
  have sp: "spans 0 ?src [''a'', ''b'', [NL], ''c''] = Some [(0, 1), (2, 3), (3, 4), (4, 5)]"
    by (simp add: is_ws_def)
  from C4_tokens_ordered_by_position [of ?src] obtain ts where
    ts: "tokenize (Lexer ?src) = Some ts"
    and adj: "\<forall>k. Suc k < length ts \<longrightarrow> lc_less (position (ts ! k)) (position (ts ! Suc k))"
    by blast
  from ts example_two_lines have ts_eq: "ts =
     [\<lparr>ttype = ''IDENTIFIER'', tvalue = ''a'', tline = 1, tcolumn = 1\<rparr>,
      \<lparr>ttype = ''IDENTIFIER'', tvalue = ''b'', tline = 1, tcolumn = 3\<rparr>,
      \<lparr>ttype = ''NEWLINE'', tvalue = [BACKSLASH, CHR ''n''], tline = 1, tcolumn = 4\<rparr>,
      \<lparr>ttype = ''IDENTIFIER'', tvalue = ''c'', tline = 2, tcolumn = 1\<rparr>]"
    by simp
  have "lc_less (1, 1) (1, 3)" using adj [rule_format, of 0] by (simp add: ts_eq position_def)
  moreover have "lc_less (1, 3) (1, 4)"
    using adj [rule_format, of 1] by (simp add: ts_eq position_def)
  moreover have "lc_less (1, 4) (2, 1)"
    using adj [rule_format, of 2] by (simp add: ts_eq position_def numeral_3_eq_3)
  ultimately show ?thesis using example_two_lines sp by simp
qed

text \<open>
  Claim C10. Two slashes are an entry of the table of the two-character operators, yet
  no token that \<open>tokenize\<close> returns is an \<open>OPERATOR\<close> of value two slashes: the test
  for the line comment comes first, so at two slashes the dispatcher runs the scanner of
  the line comment, which takes them as the start of a \<open>COMMENT\<close> token.
\<close>

theorem C10_double_slash_is_never_an_operator:
  "''//'' \<in> set multi_char_ops \<and>
   dispatch (CHR ''/'') (Some (CHR ''/'')) = LineComment \<and>
   (rest L = ''//'' @ cs \<longrightarrow>
      tokens (scan L (CHR ''/'')) =
        tokens L @ [\<lparr>ttype = ''COMMENT'', tvalue = ''//'' @ takeWhile (\<lambda>c. c \<noteq> NL) cs,
                     tline = line L, tcolumn = column L\<rparr>] \<and>
      pos (scan L (CHR ''/'')) = pos L + 2 + length (takeWhile (\<lambda>c. c \<noteq> NL) cs)) \<and>
   (\<exists>ts. tokenize (Lexer src) = Some ts \<and>
      list_all (\<lambda>t. \<not> (ttype t = ''OPERATOR'' \<and> tvalue t = ''//'')) ts)"
proof (intro conjI impI)
  show "''//'' \<in> set multi_char_ops" by (simp add: multi_char_ops_def)
  show d: "dispatch (CHR ''/'') (Some (CHR ''/'')) = LineComment" by (simp add: dispatch_def)
  show "\<exists>ts. tokenize (Lexer src) = Some ts \<and>
      list_all (\<lambda>t. \<not> (ttype t = ''OPERATOR'' \<and> tvalue t = ''//'')) ts"
    using tokenize_loop_no_slash_operator [of src]
    by (auto simp: tokenize_def no_slash_operator_def)
  assume r: "rest L = ''//'' @ cs"
  then have pk: "peek_char L = Some (CHR ''/'')" by (simp add: peek_char_rest)
  have sc: "scan L (CHR ''/'') = lex_single_comment L" by (simp add: scan_def pk d)
  show "tokens (scan L (CHR ''/'')) =
        tokens L @ [\<lparr>ttype = ''COMMENT'', tvalue = ''//'' @ takeWhile (\<lambda>c. c \<noteq> NL) cs,
                     tline = line L, tcolumn = column L\<rparr>]"
    by (simp add: sc lex_single_comment_emit r)
  show "pos (scan L (CHR ''/'')) = pos L + 2 + length (takeWhile (\<lambda>c. c \<noteq> NL) cs)"
    by (simp add: sc lex_single_comment_emit r)
qed

lemma example_division_comment:
  "tokenize (Lexer ''a//b'') = Some
     [\<lparr>ttype = ''IDENTIFIER'', tvalue = ''a'', tline = 1, tcolumn = 1\<rparr>,
      \<lparr>ttype = ''COMMENT'', tvalue = ''//b'', tline = 1, tcolumn = 2\<rparr>]"
  by code_simp

theorem C10_witness:
  "tokenize (Lexer ''a//b'') = Some
     [\<lparr>ttype = ''IDENTIFIER'', tvalue = ''a'', tline = 1, tcolumn = 1\<rparr>,
      \<lparr>ttype = ''COMMENT'', tvalue = ''//b'', tline = 1, tcolumn = 2\<rparr>] \<and>
   rest (advance (Lexer ''a//b'')) = ''//'' @ ''b'' \<and>
   tokens (scan (advance (Lexer ''a//b'')) (CHR ''/'')) =
     [\<lparr>ttype = ''COMMENT'', tvalue = ''//b'', tline = 1, tcolumn = 2\<rparr>]"
proof -
  define M where "M = advance (Lexer ''a//b'')"
  have r: "rest M = ''//'' @ ''b''"
    by (simp add: M_def rest_def Lexer_def advance_def)
  have lc: "line M = 1" "column M = 2" "tokens M = []"
    by (simp_all add: M_def Lexer_def advance_def current_char_def)
  from C10_double_slash_is_never_an_operator [of M "''b''" "''a//b''"] r
  have "tokens (scan M (CHR ''/'')) =
     tokens M @ [\<lparr>ttype = ''COMMENT'', tvalue = ''//'' @ takeWhile (\<lambda>c. c \<noteq> NL) ''b'',
                  tline = line M, tcolumn = column M\<rparr>]"
    by blast
  then have "tokens (scan M (CHR ''/'')) =
     [\<lparr>ttype = ''COMMENT'', tvalue = ''//b'', tline = 1, tcolumn = 2\<rparr>]"
    by (simp add: lc)
  then show ?thesis using example_division_comment r unfolding M_def by simp
qed

text \<open>
  Claim C2. At a hash sign the dispatcher always takes the branch of the preprocessor
  directive, whatever follows; the token that the scan emits there is of type
  \<open>PREPROCESSOR\<close>, its value runs from the hash sign up to but not including the next
  newline, or to the end of the input, and the cursor stops there. The second test on the
  hash sign, the one of the Python comment, is never the branch taken, for any character
  and lookahead; and in what \<open>tokenize\<close> returns every \<open>COMMENT\<close> starts with a slash, so
  none starts with a hash sign.
\<close>

theorem C2_hash_is_always_preprocessor:
  "dispatch (CHR ''#'') pk = Preprocessor \<and>
   dispatch ch pk' \<noteq> HashComment \<and>
   (current_char L = Some (CHR ''#'') \<longrightarrow>
      scan L (CHR ''#'') = lex_preprocessor L \<and>
      tokens (scan L (CHR ''#'')) =
        tokens L @ [\<lparr>ttype = ''PREPROCESSOR'', tvalue = takeWhile (\<lambda>c. c \<noteq> NL) (rest L),
                     tline = line L, tcolumn = column L\<rparr>] \<and>
      hd (takeWhile (\<lambda>c. c \<noteq> NL) (rest L)) = CHR ''#'' \<and>
      pos (scan L (CHR ''#'')) = pos L + length (takeWhile (\<lambda>c. c \<noteq> NL) (rest L)) \<and>
      rest (scan L (CHR ''#'')) = dropWhile (\<lambda>c. c \<noteq> NL) (rest L)) \<and>
   (\<exists>ts. tokenize (Lexer src) = Some ts \<and>
      list_all (\<lambda>t. ttype t \<noteq> ''COMMENT'' \<or> take 1 (tvalue t) = ''/'') ts)"
proof (intro conjI impI)
  show d: "dispatch (CHR ''#'') pk = Preprocessor" by (rule dispatch_hash)
  show "dispatch ch pk' \<noteq> HashComment" by (rule dispatch_not_HashComment)
  show "\<exists>ts. tokenize (Lexer src) = Some ts \<and>
      list_all (\<lambda>t. ttype t \<noteq> ''COMMENT'' \<or> take 1 (tvalue t) = ''/'') ts"
    using tokenize_loop_comments [of src]
    by (auto simp: tokenize_def comments_start_with_slash_def)
  assume cur: "current_char L = Some (CHR ''#'')"
  then obtain cs where r: "rest L = CHR ''#'' # cs"
    by (cases "rest L") (simp_all add: current_char_rest)
  show sc: "scan L (CHR ''#'') = lex_preprocessor L" by (simp add: scan_def dispatch_hash)
  show "tokens (scan L (CHR ''#'')) =
        tokens L @ [\<lparr>ttype = ''PREPROCESSOR'', tvalue = takeWhile (\<lambda>c. c \<noteq> NL) (rest L),
                     tline = line L, tcolumn = column L\<rparr>]"
    by (simp add: sc lex_preprocessor_emit)
  show "hd (takeWhile (\<lambda>c. c \<noteq> NL) (rest L)) = CHR ''#''" by (simp add: r)
  show "pos (scan L (CHR ''#'')) = pos L + length (takeWhile (\<lambda>c. c \<noteq> NL) (rest L))"
    by (simp add: sc lex_preprocessor_emit)
  show "rest (scan L (CHR ''#'')) = dropWhile (\<lambda>c. c \<noteq> NL) (rest L)"
    by (simp add: sc lex_preprocessor_emit dropWhile_eq_drop)
qed

lemma example_directive:
  "tokenize (Lexer (''#if x'' @ [NL] @ ''y'')) = Some
     [\<lparr>ttype = ''PREPROCESSOR'', tvalue = ''#if x'', tline = 1, tcolumn = 1\<rparr>,
      \<lparr>ttype = ''NEWLINE'', tvalue = [BACKSLASH, CHR ''n''], tline = 1, tcolumn = 6\<rparr>,
      \<lparr>ttype = ''IDENTIFIER'', tvalue = ''y'', tline = 2, tcolumn = 1\<rparr>]"
  by code_simp

theorem C2_witness:
  "current_char (Lexer (''#if x'' @ [NL] @ ''y'')) = Some (CHR ''#'') \<and>
   tokens (scan (Lexer (''#if x'' @ [NL] @ ''y'')) (CHR ''#'')) =
     [\<lparr>ttype = ''PREPROCESSOR'', tvalue = ''#if x'', tline = 1, tcolumn = 1\<rparr>] \<and>
   pos (scan (Lexer (''#if x'' @ [NL] @ ''y'')) (CHR ''#'')) = 5 \<and>
   tokenize (Lexer (''#if x'' @ [NL] @ ''y'')) = Some
     [\<lparr>ttype = ''PREPROCESSOR'', tvalue = ''#if x'', tline = 1, tcolumn = 1\<rparr>,
      \<lparr>ttype = ''NEWLINE'', tvalue = [BACKSLASH, CHR ''n''], tline = 1, tcolumn = 6\<rparr>,
      \<lparr>ttype = ''IDENTIFIER'', tvalue = ''y'', tline = 2, tcolumn = 1\<rparr>]"
proof -
  define M where "M = Lexer (''#if x'' @ [NL] @ ''y'')"
  have cur: "current_char M = Some (CHR ''#'')" by (simp add: M_def Lexer_def current_char_def)
  have st: "rest M = ''#if x'' @ [NL] @ ''y''" "line M = 1" "column M = 1" "tokens M = []"
    "pos M = 0"
    by (simp_all add: M_def Lexer_def rest_def)
  from C2_hash_is_always_preprocessor [of _ _ _ M] cur
  have "tokens (scan M (CHR ''#'')) =
        tokens M @ [\<lparr>ttype = ''PREPROCESSOR'', tvalue = takeWhile (\<lambda>c. c \<noteq> NL) (rest M),
                     tline = line M, tcolumn = column M\<rparr>]"
    and "pos (scan M (CHR ''#'')) = pos M + length (takeWhile (\<lambda>c. c \<noteq> NL) (rest M))"
    by blast+
  then have "tokens (scan M (CHR ''#'')) =
       [\<lparr>ttype = ''PREPROCESSOR'', tvalue = ''#if x'', tline = 1, tcolumn = 1\<rparr>]"
    and "pos (scan M (CHR ''#'')) = 5"
    by (simp_all add: st)
  then show ?thesis using cur example_directive unfolding M_def by simp
qed

text \<open>
  Claim C1, as amended. At a newline the dispatcher takes the branch of the newline; the
  scan emits one \<open>NEWLINE\<close> token, recorded at the line and column of the newline, and
  passes exactly that one character, which starts the next line at column 1. The value of
  the token is the text of two characters, a backslash and the letter n (the source
  writes the escaped spelling), not the newline character itself: the closed theorem
  after the witness shows it on the input that is one newline.
\<close>

theorem C1_newline_token_amended:
  "dispatch NL pk = Newline \<and>
   (current_char L = Some NL \<longrightarrow>
      scan L NL = lex_newline L \<and>
      tokens (scan L NL) =
        tokens L @ [\<lparr>ttype = ''NEWLINE'', tvalue = [BACKSLASH, CHR ''n''],
                     tline = line L, tcolumn = column L\<rparr>] \<and>
      pos (scan L NL) = pos L + 1 \<and>
      line (scan L NL) = line L + 1 \<and> column (scan L NL) = 1 \<and>
      source (scan L NL) = source L)"
proof (intro conjI impI)
  show d: "dispatch NL pk = Newline" by (simp add: dispatch_def)
  have d': "dispatch NL (peek_char L) = Newline" by (simp add: dispatch_def)
  assume cur: "current_char L = Some NL"
  show sc: "scan L NL = lex_newline L" by (simp add: scan_def d')
  have adv: "advance_n 1 L = advance L" by simp
  show "tokens (scan L NL) =
        tokens L @ [\<lparr>ttype = ''NEWLINE'', tvalue = [BACKSLASH, CHR ''n''],
                     tline = line L, tcolumn = column L\<rparr>]"
    by (simp add: sc lex_newline_emit)
  show "pos (scan L NL) = pos L + 1" by (simp add: sc lex_newline_emit)
  show "line (scan L NL) = line L + 1"
    using cur by (simp add: sc lex_newline_emit advance_def)
  show "column (scan L NL) = 1"
    using cur by (simp add: sc lex_newline_emit advance_def)
  show "source (scan L NL) = source L" by (simp add: sc lex_newline_emit)
qed

theorem C1_witness:
  "current_char (Lexer [NL]) = Some NL \<and>
   tokens (scan (Lexer [NL]) NL) =
     [\<lparr>ttype = ''NEWLINE'', tvalue = [BACKSLASH, CHR ''n''], tline = 1, tcolumn = 1\<rparr>] \<and>
   pos (scan (Lexer [NL]) NL) = 1 \<and> line (scan (Lexer [NL]) NL) = 2 \<and>
   column (scan (Lexer [NL]) NL) = 1"
proof -
  define M where "M = Lexer [NL]"
  have cur: "current_char M = Some NL" by (simp add: M_def Lexer_def current_char_def)
  have st: "line M = 1" "column M = 1" "tokens M = []" "pos M = 0"
    by (simp_all add: M_def Lexer_def)
  from C1_newline_token_amended [of _ M] cur
  have "tokens (scan M NL) =
        tokens M @ [\<lparr>ttype = ''NEWLINE'', tvalue = [BACKSLASH, CHR ''n''],
                     tline = line M, tcolumn = column M\<rparr>]"
    and "pos (scan M NL) = pos M + 1" and "line (scan M NL) = line M + 1"
    and "column (scan M NL) = 1"
    by blast+
  then show ?thesis using cur unfolding M_def [symmetric] by (simp add: st)
qed

theorem C1_counterexample:
  "tokenize (Lexer [NL]) =
     Some [\<lparr>ttype = ''NEWLINE'', tvalue = [BACKSLASH, CHR ''n''], tline = 1, tcolumn = 1\<rparr>] \<and>
   length [BACKSLASH, CHR ''n''] = 2 \<and> [BACKSLASH, CHR ''n''] \<noteq> [NL]"
proof -
  have "tokenize (Lexer [NL]) =
     Some [\<lparr>ttype = ''NEWLINE'', tvalue = [BACKSLASH, CHR ''n''], tline = 1, tcolumn = 1\<rparr>]"
    by code_simp
  then show ?thesis by simp
qed

lemma isalpha_not_special:
  assumes "isalpha ch \<or> ch = CHR ''_''"
  shows "ch \<noteq> NL" and "ch \<noteq> CHR ''#''" and "ch \<noteq> CHR ''/''" and "\<not> isdigit ch"
  using assms by (auto simp: char_class_defs)

lemma dispatch_alpha: "isalpha ch \<or> ch = CHR ''_'' \<Longrightarrow> dispatch ch pk = Identifier"
  using isalpha_not_special [of ch] by (simp add: dispatch_def)

lemma isdigit_not_special:
  assumes "isdigit ch"
  shows "ch \<noteq> NL" and "ch \<noteq> CHR ''#''" and "ch \<noteq> CHR ''/''"
  using assms by (auto simp: char_class_defs)

lemma dispatch_digit: "isdigit ch \<Longrightarrow> dispatch ch pk = Number"
  using isdigit_not_special [of ch] by (simp add: dispatch_def)

text \<open>
  Claim C5. For every input \<open>tokenize\<close> returns a token list: the model has no error
  value because every read of the source is behind the bound test of \<open>current_char\<close> or
  \<open>peek_char\<close> and every use of a character is behind the test that there is one, and the
  loop is proved to return. The dispatcher ends in the branch \<open>Unknown\<close> exactly when no
  earlier rule matches (the character is no newline, hash sign, digit, letter,
  underscore or quote, forms no two-character operator with the lookahead, and is no
  single-character operator or delimiter; a comment starts with a slash, which is an
  operator); the scan then emits one \<open>UNKNOWN\<close> token whose value is that one character
  and passes exactly it. The input of one dollar sign gives one \<open>UNKNOWN\<close> token.
\<close>

theorem C5_total_and_unknown:
  "(\<exists>ts. tokenize (Lexer src) = Some ts) \<and>
   (dispatch ch pk = Unknown \<longleftrightarrow>
      ch \<noteq> NL \<and> ch \<noteq> CHR ''#'' \<and> \<not> isdigit ch \<and> \<not> isalpha ch \<and> ch \<noteq> CHR ''_'' \<and>
      ch \<noteq> DQUOTE \<and> ch \<noteq> SQUOTE \<and> (\<forall>p. pk = Some p \<longrightarrow> [ch, p] \<notin> set multi_char_ops) \<and>
      ch \<notin> single_ops \<and> ch \<notin> delimiters) \<and>
   (current_char L = Some ch \<and> dispatch ch (peek_char L) = Unknown \<longrightarrow>
      tokens (scan L ch) =
        tokens L @ [\<lparr>ttype = ''UNKNOWN'', tvalue = [ch], tline = line L, tcolumn = column L\<rparr>] \<and>
      pos (scan L ch) = pos L + 1 \<and> source (scan L ch) = source L) \<and>
   tokenize (Lexer ''$'') =
     Some [\<lparr>ttype = ''UNKNOWN'', tvalue = ''$'', tline = 1, tcolumn = 1\<rparr>]"
proof (intro conjI impI)
  show "\<exists>ts. tokenize (Lexer src) = Some ts"
    using tokenize_loop_tiles [of src] by (auto simp: tokenize_def)
  have slash: "CHR ''/'' \<in> single_ops" by (simp add: single_ops_def)
  show "dispatch ch pk = Unknown \<longleftrightarrow>
      ch \<noteq> NL \<and> ch \<noteq> CHR ''#'' \<and> \<not> isdigit ch \<and> \<not> isalpha ch \<and> ch \<noteq> CHR ''_'' \<and>
      ch \<noteq> DQUOTE \<and> ch \<noteq> SQUOTE \<and> (\<forall>p. pk = Some p \<longrightarrow> [ch, p] \<notin> set multi_char_ops) \<and>
      ch \<notin> single_ops \<and> ch \<notin> delimiters"
    using slash by (cases pk) (auto simp: dispatch_def)
  show "tokenize (Lexer ''$'') =
     Some [\<lparr>ttype = ''UNKNOWN'', tvalue = ''$'', tline = 1, tcolumn = 1\<rparr>]"
    by code_simp
next
  assume a: "current_char L = Some ch \<and> dispatch ch (peek_char L) = Unknown"
  then have sc: "scan L ch = emit L 1 ''UNKNOWN'' [ch]" by (simp add: scan_def single_emit)
  show "tokens (scan L ch) =
        tokens L @ [\<lparr>ttype = ''UNKNOWN'', tvalue = [ch], tline = line L, tcolumn = column L\<rparr>]"
    by (simp add: sc)
  show "pos (scan L ch) = pos L + 1" by (simp add: sc)
  show "source (scan L ch) = source L" by (simp add: sc)
qed

theorem C5_witness:
  "current_char (Lexer ''$'') = Some (CHR ''$'') \<and>
   dispatch (CHR ''$'') (peek_char (Lexer ''$'')) = Unknown \<and>
   tokens (scan (Lexer ''$'') (CHR ''$'')) =
     [\<lparr>ttype = ''UNKNOWN'', tvalue = ''$'', tline = 1, tcolumn = 1\<rparr>] \<and>
   pos (scan (Lexer ''$'') (CHR ''$'')) = 1 \<and>
   tokenize (Lexer ''$'') =
     Some [\<lparr>ttype = ''UNKNOWN'', tvalue = ''$'', tline = 1, tcolumn = 1\<rparr>]"
proof -
  define M where "M = Lexer ''$''"
  have cur: "current_char M = Some (CHR ''$'')" by (simp add: M_def Lexer_def current_char_def)
  have pk: "peek_char M = None" by (simp add: M_def Lexer_def peek_char_def)
  have d: "dispatch (CHR ''$'') (peek_char M) = Unknown"
    unfolding pk by (simp add: dispatch_def char_class_defs single_ops_def delimiters_def)
  have st: "line M = 1" "column M = 1" "tokens M = []" "pos M = 0"
    by (simp_all add: M_def Lexer_def)
  note inst = C5_total_and_unknown [of "''$''" "CHR ''$''" None M]
  from inst cur d
  have "tokens (scan M (CHR ''$'')) =
        tokens M @ [\<lparr>ttype = ''UNKNOWN'', tvalue = ''$'', tline = line M, tcolumn = column M\<rparr>]"
    and "pos (scan M (CHR ''$'')) = pos M + 1"
    by blast+
  moreover from inst have "tokenize (Lexer ''$'') =
     Some [\<lparr>ttype = ''UNKNOWN'', tvalue = ''$'', tline = 1, tcolumn = 1\<rparr>]"
    by blast
  ultimately show ?thesis using cur d unfolding M_def [symmetric] by (simp add: st)
qed

text \<open>
  Claim C8. At a letter or an underscore the dispatcher runs \<open>lex_identifier\<close>, which
  takes the maximal run \<open>w\<close> of alphanumeric characters and underscores (it starts with
  the current character, and what follows it, if anything, is neither) and emits one
  token of value \<open>w\<close>: of type \<open>KEYWORD\<close> if and only if \<open>w\<close> itself is an element of
  the fixed list of keywords, and of type \<open>IDENTIFIER\<close> otherwise.
\<close>

theorem C8_keyword_iff_exact_member:
  "current_char L = Some ch \<and> (isalpha ch \<or> ch = CHR ''_'') \<longrightarrow>
     scan L ch = lex_identifier L \<and>
     (\<exists>w. w = takeWhile (\<lambda>c. isalnum c \<or> c = CHR ''_'') (rest L) \<and>
        w \<noteq> [] \<and> hd w = ch \<and> rest L = w @ rest (scan L ch) \<and>
        (rest (scan L ch) = [] \<or>
         \<not> (isalnum (hd (rest (scan L ch))) \<or> hd (rest (scan L ch)) = CHR ''_'')) \<and>
        tokens (scan L ch) =
          tokens L @ [\<lparr>ttype = (if w \<in> set TOKEN_TYPES_KEYWORD then ''KEYWORD'' else ''IDENTIFIER''),
                       tvalue = w, tline = line L, tcolumn = column L\<rparr>] \<and>
        (ttype (last (tokens (scan L ch))) = ''KEYWORD'' \<longleftrightarrow> w \<in> set TOKEN_TYPES_KEYWORD) \<and>
        (ttype (last (tokens (scan L ch))) = ''IDENTIFIER'' \<longleftrightarrow> w \<notin> set TOKEN_TYPES_KEYWORD) \<and>
        pos (scan L ch) = pos L + length w)"
proof (intro impI)
  assume a: "current_char L = Some ch \<and> (isalpha ch \<or> ch = CHR ''_'')"
  then obtain cs where r: "rest L = ch # cs"
    by (cases "rest L") (simp_all add: current_char_rest)
  from a have al: "isalnum ch \<or> ch = CHR ''_''" using isalpha_isalnum by blast
  define w where "w = takeWhile (\<lambda>c. isalnum c \<or> c = CHR ''_'') (rest L)"
  have sc: "scan L ch = lex_identifier L" using a by (simp add: scan_def dispatch_alpha)
  have em: "scan L ch =
      emit L (length w) (if w \<in> set TOKEN_TYPES_KEYWORD then ''KEYWORD'' else ''IDENTIFIER'') w"
    by (simp add: sc lex_identifier_emit w_def)
  have w_ne: "w \<noteq> []" and hd: "hd w = ch" using r al by (simp_all add: w_def)
  have rest': "rest (scan L ch) = dropWhile (\<lambda>c. isalnum c \<or> c = CHR ''_'') (rest L)"
    by (simp add: em w_def dropWhile_eq_drop)
  have split: "rest L = w @ rest (scan L ch)" by (simp add: rest' w_def)
  have stop: "rest (scan L ch) = [] \<or>
         \<not> (isalnum (hd (rest (scan L ch))) \<or> hd (rest (scan L ch)) = CHR ''_'')"
    unfolding rest' using hd_dropWhile [of "\<lambda>c. isalnum c \<or> c = CHR ''_''" "rest L"] by blast
  have toks: "tokens (scan L ch) =
          tokens L @ [\<lparr>ttype = (if w \<in> set TOKEN_TYPES_KEYWORD then ''KEYWORD'' else ''IDENTIFIER''),
                       tvalue = w, tline = line L, tcolumn = column L\<rparr>]"
    by (simp add: em)
  have k: "ttype (last (tokens (scan L ch))) = ''KEYWORD'' \<longleftrightarrow> w \<in> set TOKEN_TYPES_KEYWORD"
    and i: "ttype (last (tokens (scan L ch))) = ''IDENTIFIER'' \<longleftrightarrow> w \<notin> set TOKEN_TYPES_KEYWORD"
    by (simp_all add: toks)
  have p: "pos (scan L ch) = pos L + length w" by (simp add: em)
  show "scan L ch = lex_identifier L \<and>
     (\<exists>w. w = takeWhile (\<lambda>c. isalnum c \<or> c = CHR ''_'') (rest L) \<and>
        w \<noteq> [] \<and> hd w = ch \<and> rest L = w @ rest (scan L ch) \<and>
        (rest (scan L ch) = [] \<or>
         \<not> (isalnum (hd (rest (scan L ch))) \<or> hd (rest (scan L ch)) = CHR ''_'')) \<and>
        tokens (scan L ch) =
          tokens L @ [\<lparr>ttype = (if w \<in> set TOKEN_TYPES_KEYWORD then ''KEYWORD'' else ''IDENTIFIER''),
                       tvalue = w, tline = line L, tcolumn = column L\<rparr>] \<and>
        (ttype (last (tokens (scan L ch))) = ''KEYWORD'' \<longleftrightarrow> w \<in> set TOKEN_TYPES_KEYWORD) \<and>
        (ttype (last (tokens (scan L ch))) = ''IDENTIFIER'' \<longleftrightarrow> w \<notin> set TOKEN_TYPES_KEYWORD) \<and>
        pos (scan L ch) = pos L + length w)"
    using sc w_def w_ne hd split stop toks k i p by blast
qed

lemma example_keywords:
  "tokenize (Lexer ''if iff If _if'') = Some
     [\<lparr>ttype = ''KEYWORD'', tvalue = ''if'', tline = 1, tcolumn = 1\<rparr>,
      \<lparr>ttype = ''IDENTIFIER'', tvalue = ''iff'', tline = 1, tcolumn = 4\<rparr>,
      \<lparr>ttype = ''IDENTIFIER'', tvalue = ''If'', tline = 1, tcolumn = 8\<rparr>,
      \<lparr>ttype = ''IDENTIFIER'', tvalue = ''_if'', tline = 1, tcolumn = 11\<rparr>]"
  by code_simp

theorem C8_witness:
  "current_char (Lexer ''if iff If _if'') = Some (CHR ''i'') \<and> isalpha (CHR ''i'') \<and>
   tokens (scan (Lexer ''if iff If _if'') (CHR ''i'')) =
     [\<lparr>ttype = ''KEYWORD'', tvalue = ''if'', tline = 1, tcolumn = 1\<rparr>] \<and>
   ''if'' \<in> set TOKEN_TYPES_KEYWORD \<and> ''iff'' \<notin> set TOKEN_TYPES_KEYWORD \<and>
   ''If'' \<notin> set TOKEN_TYPES_KEYWORD \<and>
   tokenize (Lexer ''if iff If _if'') = Some
     [\<lparr>ttype = ''KEYWORD'', tvalue = ''if'', tline = 1, tcolumn = 1\<rparr>,
      \<lparr>ttype = ''IDENTIFIER'', tvalue = ''iff'', tline = 1, tcolumn = 4\<rparr>,
      \<lparr>ttype = ''IDENTIFIER'', tvalue = ''If'', tline = 1, tcolumn = 8\<rparr>,
      \<lparr>ttype = ''IDENTIFIER'', tvalue = ''_if'', tline = 1, tcolumn = 11\<rparr>]"
proof -
  define M where "M = Lexer ''if iff If _if''"
  have cur: "current_char M = Some (CHR ''i'')" by (simp add: M_def Lexer_def current_char_def)
  have al: "isalpha (CHR ''i'')" by (simp add: char_class_defs)
  have st: "line M = 1" "column M = 1" "tokens M = []" "rest M = ''if iff If _if''"
    by (simp_all add: M_def Lexer_def rest_def)
  have w: "takeWhile (\<lambda>c. isalnum c \<or> c = CHR ''_'') (rest M) = ''if''"
    by (simp add: st char_class_defs)
  have kw: "''if'' \<in> set TOKEN_TYPES_KEYWORD" "''iff'' \<notin> set TOKEN_TYPES_KEYWORD"
    "''If'' \<notin> set TOKEN_TYPES_KEYWORD"
    by (simp_all add: TOKEN_TYPES_KEYWORD_def)
  from C8_keyword_iff_exact_member [of M "CHR ''i''"] cur al
  have "tokens (scan M (CHR ''i'')) =
          tokens M @ [\<lparr>ttype = (if takeWhile (\<lambda>c. isalnum c \<or> c = CHR ''_'') (rest M)
                                    \<in> set TOKEN_TYPES_KEYWORD then ''KEYWORD'' else ''IDENTIFIER''),
                       tvalue = takeWhile (\<lambda>c. isalnum c \<or> c = CHR ''_'') (rest M),
                       tline = line M, tcolumn = column M\<rparr>]"
    by blast
  then have "tokens (scan M (CHR ''i'')) =
     [\<lparr>ttype = ''KEYWORD'', tvalue = ''if'', tline = 1, tcolumn = 1\<rparr>]"
    unfolding w using kw(1) by (simp add: st)
  then show ?thesis using cur al kw example_keywords unfolding M_def by simp
qed

lemma single_ops_all_plain: "list_all plain ''+-*/%=<>!&|^~?:@''"
  by (simp add: plain_def char_class_defs)

lemma single_ops_plain: "ch \<in> single_ops \<Longrightarrow> plain ch"
  using single_ops_all_plain by (simp add: single_ops_def list_all_iff del: set_simps list.set)

lemma multi_char_ops_first: "[ch, p] \<in> set multi_char_ops \<Longrightarrow> ch \<in> single_ops"
  by (auto simp: multi_char_ops_def single_ops_def)

lemma multi_op_stage:
  assumes m: "[ch, p] \<in> set multi_char_ops" and ne: "[ch, p] \<noteq> ''//''"
  shows "operator_stage ch (Some p)"
proof -
  have "[CHR ''/'', CHR ''*''] \<notin> set multi_char_ops" by (simp add: multi_char_ops_def)
  then have "\<not> (ch = CHR ''/'' \<and> p = CHR ''*'')" using m by auto
  moreover have "plain ch" using m by (intro single_ops_plain multi_char_ops_first)
  ultimately show ?thesis using ne by (simp add: operator_stage_def plain_def)
qed

lemma single_op_stage:
  assumes "ch \<in> single_ops"
    and "\<not> (ch = CHR ''/'' \<and> (pk = Some CHR ''/'' \<or> pk = Some CHR ''*''))"
  shows "operator_stage ch pk"
  using single_ops_plain [OF assms(1)] assms(2) by (simp add: operator_stage_def plain_def)

lemma dispatch_at_operator_stage:
  assumes "operator_stage ch pk"
  shows "case pk of
           Some p \<Rightarrow>
             if [ch, p] \<in> set multi_char_ops then dispatch ch pk = MultiOp [ch, p]
             else if ch \<in> single_ops then dispatch ch pk = SingleOp
             else dispatch ch pk \<in> {Delimiter, Unknown}
         | None \<Rightarrow>
             if ch \<in> single_ops then dispatch ch pk = SingleOp
             else dispatch ch pk \<in> {Delimiter, Unknown}"
  using assms by (cases pk) (simp_all add: operator_stage_def dispatch_def)

lemma dispatch_multi_op:
  assumes "[ch, p] \<in> set multi_char_ops" and "[ch, p] \<noteq> ''//''"
  shows "dispatch ch (Some p) = MultiOp [ch, p]"
  using dispatch_at_operator_stage [OF multi_op_stage [OF assms]] assms(1) by simp

lemma dispatch_single_op:
  assumes s: "ch \<in> single_ops"
    and n: "\<forall>p. pk = Some p \<longrightarrow> [ch, p] \<notin> set multi_char_ops \<and> [ch, p] \<noteq> ''/*''"
  shows "dispatch ch pk = SingleOp"
proof -
  have sl: "''//'' \<in> set multi_char_ops" by (simp add: multi_char_ops_def)
  have "\<not> (ch = CHR ''/'' \<and> (pk = Some CHR ''/'' \<or> pk = Some CHR ''*''))"
    using n sl by auto
  with s have "operator_stage ch pk" by (rule single_op_stage)
  from dispatch_at_operator_stage [OF this] s n show ?thesis
    by (cases pk) simp_all
qed

text \<open>
  Claim C9, as amended. The table of the two-character operators is tried before the
  single-character operators: if the current character and the lookahead form an entry
  of the table other than two slashes, the dispatcher takes the branch of the
  two-character operator, and the scan emits one \<open>OPERATOR\<close> token of those two
  characters and passes both; otherwise, if the current character is a single-character
  operator and is not a slash before a star, the scan emits it alone as an \<open>OPERATOR\<close> and
  passes one character. The two exceptions are the starts of the comments, which the
  dispatcher tests earlier: at two slashes it takes the branch of the line comment, at a
  slash and a star the branch of the block comment. The input \<open>x<<=1\<close> gives the four
  tokens of the specification. The closed theorem after the witness shows the claim
  without the exceptions to fail on the inputs of two slashes and of a slash and a star.
\<close>

theorem C9_operators_amended:
  "([ch, p] \<in> set multi_char_ops \<and> [ch, p] \<noteq> ''//'' \<longrightarrow>
      dispatch ch (Some p) = MultiOp [ch, p]) \<and>
   (ch \<in> single_ops \<and>
    (\<forall>p. pk = Some p \<longrightarrow> [ch, p] \<notin> set multi_char_ops \<and> [ch, p] \<noteq> ''/*'') \<longrightarrow>
      dispatch ch pk = SingleOp) \<and>
   dispatch (CHR ''/'') (Some (CHR ''/'')) = LineComment \<and>
   dispatch (CHR ''/'') (Some (CHR ''*'')) = BlockComment \<and>
   (current_char L = Some ch \<and> peek_char L = Some p \<and>
    [ch, p] \<in> set multi_char_ops \<and> [ch, p] \<noteq> ''//'' \<longrightarrow>
      [ch, p] = take 2 (rest L) \<and>
      tokens (scan L ch) =
        tokens L @ [\<lparr>ttype = ''OPERATOR'', tvalue = [ch, p], tline = line L, tcolumn = column L\<rparr>] \<and>
      pos (scan L ch) = pos L + 2) \<and>
   (current_char L = Some ch \<and> ch \<in> single_ops \<and>
    (\<forall>p. peek_char L = Some p \<longrightarrow> [ch, p] \<notin> set multi_char_ops \<and> [ch, p] \<noteq> ''/*'') \<longrightarrow>
      tokens (scan L ch) =
        tokens L @ [\<lparr>ttype = ''OPERATOR'', tvalue = [ch], tline = line L, tcolumn = column L\<rparr>] \<and>
      pos (scan L ch) = pos L + 1) \<and>
   tokenize (Lexer ''x<<=1'') = Some
     [\<lparr>ttype = ''IDENTIFIER'', tvalue = ''x'', tline = 1, tcolumn = 1\<rparr>,
      \<lparr>ttype = ''OPERATOR'', tvalue = ''<<'', tline = 1, tcolumn = 2\<rparr>,
      \<lparr>ttype = ''OPERATOR'', tvalue = ''='', tline = 1, tcolumn = 4\<rparr>,
      \<lparr>ttype = ''INTEGER'', tvalue = ''1'', tline = 1, tcolumn = 5\<rparr>]"
proof (intro conjI impI)
  assume "[ch, p] \<in> set multi_char_ops \<and> [ch, p] \<noteq> ''//''"
  then show "dispatch ch (Some p) = MultiOp [ch, p]" using dispatch_multi_op by blast
next
  assume "ch \<in> single_ops \<and>
    (\<forall>p. pk = Some p \<longrightarrow> [ch, p] \<notin> set multi_char_ops \<and> [ch, p] \<noteq> ''/*'')"
  then show "dispatch ch pk = SingleOp" using dispatch_single_op by blast
next
  show "dispatch (CHR ''/'') (Some (CHR ''/'')) = LineComment" by (simp add: dispatch_def)
  show "dispatch (CHR ''/'') (Some (CHR ''*'')) = BlockComment" by (simp add: dispatch_def)
next
  assume a: "current_char L = Some ch \<and> peek_char L = Some p \<and>
    [ch, p] \<in> set multi_char_ops \<and> [ch, p] \<noteq> ''//''"
  then have d: "dispatch ch (peek_char L) = MultiOp [ch, p]" using dispatch_multi_op by simp
  from a obtain cs where r: "rest L = ch # cs"
    by (cases "rest L") (simp_all add: current_char_rest)
  from a r obtain ds where ds: "cs = p # ds" by (cases cs) (simp_all add: peek_char_rest)
  have sc: "scan L ch = emit L 2 ''OPERATOR'' [ch, p]" using d by (simp add: scan_def multi_op_emit)
  show "[ch, p] = take 2 (rest L)" by (simp add: r ds numeral_2_eq_2)
  show "tokens (scan L ch) =
        tokens L @ [\<lparr>ttype = ''OPERATOR'', tvalue = [ch, p], tline = line L, tcolumn = column L\<rparr>]"
    by (simp add: sc)
  show "pos (scan L ch) = pos L + 2" by (simp add: sc)
next
  assume a: "current_char L = Some ch \<and> ch \<in> single_ops \<and>
    (\<forall>p. peek_char L = Some p \<longrightarrow> [ch, p] \<notin> set multi_char_ops \<and> [ch, p] \<noteq> ''/*'')"
  then have "dispatch ch (peek_char L) = SingleOp" using dispatch_single_op by blast
  then have sc: "scan L ch = emit L 1 ''OPERATOR'' [ch]" by (simp add: scan_def single_emit)
  show "tokens (scan L ch) =
        tokens L @ [\<lparr>ttype = ''OPERATOR'', tvalue = [ch], tline = line L, tcolumn = column L\<rparr>]"
    by (simp add: sc)
  show "pos (scan L ch) = pos L + 1" by (simp add: sc)
next
  show "tokenize (Lexer ''x<<=1'') = Some
     [\<lparr>ttype = ''IDENTIFIER'', tvalue = ''x'', tline = 1, tcolumn = 1\<rparr>,
      \<lparr>ttype = ''OPERATOR'', tvalue = ''<<'', tline = 1, tcolumn = 2\<rparr>,
      \<lparr>ttype = ''OPERATOR'', tvalue = ''='', tline = 1, tcolumn = 4\<rparr>,
      \<lparr>ttype = ''INTEGER'', tvalue = ''1'', tline = 1, tcolumn = 5\<rparr>]"
    by code_simp
qed

theorem C9_witness:
  "''<<'' \<in> set multi_char_ops \<and> ''<<'' \<noteq> ''//'' \<and>
   dispatch (CHR ''<'') (Some (CHR ''<'')) = MultiOp ''<<'' \<and>
   CHR ''='' \<in> single_ops \<and> ''=1'' \<notin> set multi_char_ops \<and> ''=1'' \<noteq> ''/*'' \<and>
   dispatch (CHR ''='') (Some (CHR ''1'')) = SingleOp \<and>
   current_char (advance (Lexer ''x<<=1'')) = Some (CHR ''<'') \<and>
   peek_char (advance (Lexer ''x<<=1'')) = Some (CHR ''<'') \<and>
   tokens (scan (advance (Lexer ''x<<=1'')) (CHR ''<'')) =
     [\<lparr>ttype = ''OPERATOR'', tvalue = ''<<'', tline = 1, tcolumn = 2\<rparr>] \<and>
   pos (scan (advance (Lexer ''x<<=1'')) (CHR ''<'')) = 3"
proof -
  define M where "M = advance (Lexer ''x<<=1'')"
  have cur: "current_char M = Some (CHR ''<'')" and pk: "peek_char M = Some (CHR ''<'')"
    by (simp_all add: M_def Lexer_def current_char_def peek_char_def)
  have st: "line M = 1" "column M = 2" "tokens M = []" "pos M = 1"
    by (simp_all add: M_def Lexer_def advance_def current_char_def)
  have m: "''<<'' \<in> set multi_char_ops" "''<<'' \<noteq> ''//''" "''=1'' \<notin> set multi_char_ops"
    "''=1'' \<noteq> ''/*''"
    by (simp_all add: multi_char_ops_def)
  have s: "CHR ''='' \<in> single_ops" by (simp add: single_ops_def)
  note a = C9_operators_amended [of "CHR ''<''" "CHR ''<''" None M]
  note b = C9_operators_amended [of "CHR ''=''" "CHR ''1''" "Some (CHR ''1'')" M]
  from a m have d1: "dispatch (CHR ''<'') (Some (CHR ''<'')) = MultiOp ''<<''" by blast
  from b m s have d2: "dispatch (CHR ''='') (Some (CHR ''1'')) = SingleOp" by simp
  from a cur pk m have "tokens (scan M (CHR ''<'')) =
        tokens M @ [\<lparr>ttype = ''OPERATOR'', tvalue = ''<<'', tline = line M, tcolumn = column M\<rparr>]"
    and "pos (scan M (CHR ''<'')) = pos M + 2"
    by blast+
  then show ?thesis using d1 d2 m s cur pk unfolding M_def [symmetric] by (simp add: st)
qed

theorem C9_counterexample:
  "''//'' \<in> set multi_char_ops \<and>
   tokenize (Lexer ''//'') =
     Some [\<lparr>ttype = ''COMMENT'', tvalue = ''//'', tline = 1, tcolumn = 1\<rparr>] \<and>
   CHR ''/'' \<in> single_ops \<and> ''/*'' \<notin> set multi_char_ops \<and>
   tokenize (Lexer ''/*'') =
     Some [\<lparr>ttype = ''COMMENT'', tvalue = ''/*'', tline = 1, tcolumn = 1\<rparr>]"
proof -
  have "tokenize (Lexer ''//'') =
     Some [\<lparr>ttype = ''COMMENT'', tvalue = ''//'', tline = 1, tcolumn = 1\<rparr>]"
    by code_simp
  moreover have "tokenize (Lexer ''/*'') =
     Some [\<lparr>ttype = ''COMMENT'', tvalue = ''/*'', tline = 1, tcolumn = 1\<rparr>]"
    by code_simp
  ultimately show ?thesis by (simp add: multi_char_ops_def single_ops_def)
qed

lemma number_run_True: "number_run True r = takeWhile isdigit r"
  using not_isdigit_dot by (induction r) auto

lemma number_run_False: "number_run False r = number_text r"
proof (induction r)
  case Nil
  then show ?case by (simp add: number_text_def)
next
  case (Cons c cs)
  show ?case
  proof (cases "isdigit c")
    case True
    then have "c \<noteq> CHR ''.''" using not_isdigit_dot by blast
    moreover have "number_text (c # cs) = c # number_text cs"
    proof -
      have dw: "dropWhile isdigit (c # cs) = dropWhile isdigit cs" using True by simp
      have tw: "takeWhile isdigit (c # cs) = c # takeWhile isdigit cs" using True by simp
      show ?thesis
      proof (cases "dropWhile isdigit cs")
        case Nil
        show ?thesis unfolding number_text_def dw tw Nil by simp
      next
        case (Cons d ds)
        show ?thesis unfolding number_text_def dw tw Cons by simp
      qed
    qed
    ultimately show ?thesis using True Cons by simp
  next
    case False
    then show ?thesis using not_isdigit_dot by (simp add: number_text_def number_run_True)
  qed
qed

lemma number_text_chars: "c \<in> set (number_text r) \<Longrightarrow> isdigit c \<or> c = CHR ''.''"
  by (auto simp: number_text_def split: list.splits if_splits dest: set_takeWhileD)

lemma number_text_one_dot: "count_list (number_text r) (CHR ''.'') \<le> 1"
proof -
  have "count_list (takeWhile isdigit xs) (CHR ''.'') = 0" for xs
    using not_isdigit_dot by (auto simp: count_list_0_iff dest: set_takeWhileD)
  then show ?thesis by (simp add: number_text_def split: list.splits)
qed

lemma number_text_maximal:
  "drop (length (number_text r)) r = [] \<or>
   \<not> (isdigit (hd (drop (length (number_text r)) r)) \<or> hd (drop (length (number_text r)) r) = CHR ''.'') \<or>
   (hd (drop (length (number_text r)) r) = CHR ''.'' \<and> CHR ''.'' \<in> set (number_text r))"
proof (cases "dropWhile isdigit r")
  case Nil
  have "number_text r = takeWhile isdigit r" unfolding number_text_def Nil by simp
  then show ?thesis using Nil by (simp add: dropWhile_eq_drop [symmetric])
next
  case (Cons c r2)
  have nd: "\<not> isdigit c" using hd_dropWhile [of isdigit r] Cons by auto
  show ?thesis
  proof (cases "c = CHR ''.''")
    case False
    then have "number_text r = takeWhile isdigit r" unfolding number_text_def Cons by simp
    then show ?thesis using Cons nd False by (simp add: dropWhile_eq_drop [symmetric])
  next
    case True
    then have nt: "number_text r = takeWhile isdigit r @ CHR ''.'' # takeWhile isdigit r2"
      unfolding number_text_def Cons by simp
    have r: "r = takeWhile isdigit r @ CHR ''.'' # r2"
      using Cons True takeWhile_dropWhile_id [of isdigit r] by simp
    have "drop (length (number_text r)) r =
            drop (length (takeWhile isdigit r) + Suc (length (takeWhile isdigit r2)))
              (takeWhile isdigit r @ CHR ''.'' # r2)"
      using r by (simp add: nt)
    also have "\<dots> = dropWhile isdigit r2" by (simp add: dropWhile_eq_drop)
    finally have d: "drop (length (number_text r)) r = dropWhile isdigit r2" .
    have "dropWhile isdigit r2 = [] \<or> \<not> isdigit (hd (dropWhile isdigit r2))"
      using hd_dropWhile [of isdigit r2] by blast
    moreover have "CHR ''.'' \<in> set (number_text r)" by (simp add: nt)
    ultimately show ?thesis unfolding d by blast
  qed
qed

lemma dispatch_dot: "dispatch (CHR ''.'') pk = Delimiter"
  by (cases pk)
    (simp_all add: dispatch_def isdigit_def isdecimal_def isalpha_def code_point_def
      multi_char_ops_def single_ops_def delimiters_def)

text \<open>
  Claim C7, as amended. At a digit the dispatcher runs \<open>lex_number\<close>, which takes the maximal run
  \<open>w\<close> of digits with at most one point: \<open>w\<close> is the digits at the cursor and, if a point
  follows them, that point and the digits after it. Every character of \<open>w\<close> is a digit or
  the point, the point occurs at most once, and what follows \<open>w\<close>, if anything, is no
  digit, and is a point only when \<open>w\<close> has one already. The token is a \<open>FLOAT\<close> if \<open>w\<close>
  has a point and an \<open>INTEGER\<close> otherwise. A point left behind is, at the next pass,
  always scanned as a \<open>DELIMITER\<close>. The input \<open>3.1.4\<close> gives the three tokens of the
  specification. A digit is here a character that \<open>str.isdigit\<close> accepts, as the source
  tests it: the decimal digits and also the other digit characters of Unicode, of which
  the superscripts two, three and one are in the range of the model. The run is therefore
  not always one of decimal digits: the closed theorem after the witness shows the input
  of the digit 1 followed by the superscript two, taken whole as one \<open>INTEGER\<close>.
\<close>

theorem C7_number_scanner:
  "(current_char L = Some ch \<and> isdigit ch \<longrightarrow>
      scan L ch = lex_number L \<and>
      (\<exists>w. w = number_text (rest L) \<and> w \<noteq> [] \<and> hd w = ch \<and>
         rest L = w @ rest (scan L ch) \<and>
         (\<forall>c \<in> set w. isdigit c \<or> c = CHR ''.'') \<and> count_list w (CHR ''.'') \<le> 1 \<and>
         (rest (scan L ch) = [] \<or>
          \<not> (isdigit (hd (rest (scan L ch))) \<or> hd (rest (scan L ch)) = CHR ''.'') \<or>
          (hd (rest (scan L ch)) = CHR ''.'' \<and> CHR ''.'' \<in> set w)) \<and>
         tokens (scan L ch) =
           tokens L @ [\<lparr>ttype = (if CHR ''.'' \<in> set w then ''FLOAT'' else ''INTEGER''),
                        tvalue = w, tline = line L, tcolumn = column L\<rparr>] \<and>
         pos (scan L ch) = pos L + length w)) \<and>
   dispatch (CHR ''.'') pk = Delimiter \<and>
   (current_char L = Some (CHR ''.'') \<longrightarrow>
      tokens (scan L (CHR ''.'')) =
        tokens L @ [\<lparr>ttype = ''DELIMITER'', tvalue = ''.'', tline = line L, tcolumn = column L\<rparr>] \<and>
      pos (scan L (CHR ''.'')) = pos L + 1) \<and>
   tokenize (Lexer ''3.1.4'') = Some
     [\<lparr>ttype = ''FLOAT'', tvalue = ''3.1'', tline = 1, tcolumn = 1\<rparr>,
      \<lparr>ttype = ''DELIMITER'', tvalue = ''.'', tline = 1, tcolumn = 4\<rparr>,
      \<lparr>ttype = ''INTEGER'', tvalue = ''4'', tline = 1, tcolumn = 5\<rparr>]"
proof (intro conjI impI)
  show "dispatch (CHR ''.'') pk = Delimiter" by (rule dispatch_dot)
  show "tokenize (Lexer ''3.1.4'') = Some
     [\<lparr>ttype = ''FLOAT'', tvalue = ''3.1'', tline = 1, tcolumn = 1\<rparr>,
      \<lparr>ttype = ''DELIMITER'', tvalue = ''.'', tline = 1, tcolumn = 4\<rparr>,
      \<lparr>ttype = ''INTEGER'', tvalue = ''4'', tline = 1, tcolumn = 5\<rparr>]"
    by code_simp
next
  assume "current_char L = Some (CHR ''.'')"
  have sc: "scan L (CHR ''.'') = emit L 1 ''DELIMITER'' ''.''"
    by (simp add: scan_def dispatch_dot single_emit)
  show "tokens (scan L (CHR ''.'')) =
        tokens L @ [\<lparr>ttype = ''DELIMITER'', tvalue = ''.'', tline = line L, tcolumn = column L\<rparr>]"
    by (simp add: sc)
  show "pos (scan L (CHR ''.'')) = pos L + 1" by (simp add: sc)
next
  assume a: "current_char L = Some ch \<and> isdigit ch"
  then obtain cs where r: "rest L = ch # cs"
    by (cases "rest L") (simp_all add: current_char_rest)
  from a have nd: "ch \<noteq> CHR ''.''" using not_isdigit_dot by blast
  define w where "w = number_text (rest L)"
  have wr: "w = number_run False (rest L)" by (simp add: w_def number_run_False)
  show sc: "scan L ch = lex_number L" using a by (simp add: scan_def dispatch_digit)
  have em: "scan L ch = emit L (length w) (if CHR ''.'' \<in> set w then ''FLOAT'' else ''INTEGER'') w"
    by (simp add: sc lex_number_emit wr)
  have w_ne: "w \<noteq> []" and hd: "hd w = ch" using r a nd by (simp_all add: wr)
  have rest': "rest (scan L ch) = drop (length w) (rest L)" by (simp add: em)
  have "take (length w) (rest L) = w" unfolding wr by (rule number_run_prefix)
  then have split: "rest L = w @ rest (scan L ch)"
    unfolding rest' by (metis append_take_drop_id)
  have chars: "\<forall>c \<in> set w. isdigit c \<or> c = CHR ''.''"
    using number_text_chars by (auto simp: w_def)
  have dots: "count_list w (CHR ''.'') \<le> 1" unfolding w_def by (rule number_text_one_dot)
  have maxi: "rest (scan L ch) = [] \<or>
          \<not> (isdigit (hd (rest (scan L ch))) \<or> hd (rest (scan L ch)) = CHR ''.'') \<or>
          (hd (rest (scan L ch)) = CHR ''.'' \<and> CHR ''.'' \<in> set w)"
    unfolding rest' w_def by (rule number_text_maximal)
  have toks: "tokens (scan L ch) =
           tokens L @ [\<lparr>ttype = (if CHR ''.'' \<in> set w then ''FLOAT'' else ''INTEGER''),
                        tvalue = w, tline = line L, tcolumn = column L\<rparr>]"
    by (simp add: em)
  have p: "pos (scan L ch) = pos L + length w" by (simp add: em)
  show "\<exists>w. w = number_text (rest L) \<and> w \<noteq> [] \<and> hd w = ch \<and>
         rest L = w @ rest (scan L ch) \<and>
         (\<forall>c \<in> set w. isdigit c \<or> c = CHR ''.'') \<and> count_list w (CHR ''.'') \<le> 1 \<and>
         (rest (scan L ch) = [] \<or>
          \<not> (isdigit (hd (rest (scan L ch))) \<or> hd (rest (scan L ch)) = CHR ''.'') \<or>
          (hd (rest (scan L ch)) = CHR ''.'' \<and> CHR ''.'' \<in> set w)) \<and>
         tokens (scan L ch) =
           tokens L @ [\<lparr>ttype = (if CHR ''.'' \<in> set w then ''FLOAT'' else ''INTEGER''),
                        tvalue = w, tline = line L, tcolumn = column L\<rparr>] \<and>
         pos (scan L ch) = pos L + length w"
    using w_def w_ne hd split chars dots maxi toks p by blast
qed

theorem C7_witness:
  "current_char (Lexer ''3.1.4'') = Some (CHR ''3'') \<and> isdigit (CHR ''3'') \<and>
   number_text ''3.1.4'' = ''3.1'' \<and>
   tokens (scan (Lexer ''3.1.4'') (CHR ''3'')) =
     [\<lparr>ttype = ''FLOAT'', tvalue = ''3.1'', tline = 1, tcolumn = 1\<rparr>] \<and>
   pos (scan (Lexer ''3.1.4'') (CHR ''3'')) = 3 \<and>
   rest (scan (Lexer ''3.1.4'') (CHR ''3'')) = ''.4'' \<and>
   tokenize (Lexer ''3.1.4'') = Some
     [\<lparr>ttype = ''FLOAT'', tvalue = ''3.1'', tline = 1, tcolumn = 1\<rparr>,
      \<lparr>ttype = ''DELIMITER'', tvalue = ''.'', tline = 1, tcolumn = 4\<rparr>,
      \<lparr>ttype = ''INTEGER'', tvalue = ''4'', tline = 1, tcolumn = 5\<rparr>]"
proof -
  define M where "M = Lexer ''3.1.4''"
  have cur: "current_char M = Some (CHR ''3'')" by (simp add: M_def Lexer_def current_char_def)
  have dg: "isdigit (CHR ''3'')" by (simp add: isdigit_def isdecimal_def code_point_def)
  have st: "line M = 1" "column M = 1" "tokens M = []" "pos M = 0" "rest M = ''3.1.4''"
    by (simp_all add: M_def Lexer_def rest_def)
  have nt: "number_text ''3.1.4'' = ''3.1''"
    by (simp add: number_text_def isdigit_def isdecimal_def code_point_def)
  note inst = C7_number_scanner [of M "CHR ''3''" None]
  from inst cur dg obtain w where w: "w = number_text (rest M)"
    and split: "rest M = w @ rest (scan M (CHR ''3''))"
    and toks: "tokens (scan M (CHR ''3'')) =
           tokens M @ [\<lparr>ttype = (if CHR ''.'' \<in> set w then ''FLOAT'' else ''INTEGER''),
                        tvalue = w, tline = line M, tcolumn = column M\<rparr>]"
    and p: "pos (scan M (CHR ''3'')) = pos M + length w"
    by blast
  have w': "w = ''3.1''" using w nt by (simp add: st)
  have "rest (scan M (CHR ''3'')) = ''.4''" using split by (simp add: w' st)
  moreover from inst have "tokenize (Lexer ''3.1.4'') = Some
     [\<lparr>ttype = ''FLOAT'', tvalue = ''3.1'', tline = 1, tcolumn = 1\<rparr>,
      \<lparr>ttype = ''DELIMITER'', tvalue = ''.'', tline = 1, tcolumn = 4\<rparr>,
      \<lparr>ttype = ''INTEGER'', tvalue = ''4'', tline = 1, tcolumn = 5\<rparr>]"
    by blast
  ultimately show ?thesis using cur dg nt toks p unfolding M_def [symmetric]
    by (simp add: w' st)
qed

lemma dispatch_DQUOTE: "dispatch DQUOTE pk = String"
  by (simp add: dispatch_def isdigit_def isdecimal_def isalpha_def code_point_def)

lemma dispatch_SQUOTE: "dispatch SQUOTE pk = String"
  by (simp add: dispatch_def isdigit_def isdecimal_def isalpha_def code_point_def)

lemma dispatch_quote: "ch = DQUOTE \<or> ch = SQUOTE \<Longrightarrow> dispatch ch pk = String"
  using dispatch_DQUOTE dispatch_SQUOTE by blast

lemma string_run_quote: "string_run q (q # cs) = []"
  by (cases cs) simp_all

lemma string_run_plain:
  "c \<noteq> q \<Longrightarrow> c \<noteq> BACKSLASH \<Longrightarrow> string_run q (c # cs) = c # string_run q cs"
  by (cases cs) simp_all

theorem C7_counterexample:
  "tokenize (Lexer [CHR ''1'', CHR 0xB2]) =
     Some [\<lparr>ttype = ''INTEGER'', tvalue = [CHR ''1'', CHR 0xB2], tline = 1, tcolumn = 1\<rparr>] \<and>
   \<not> isdecimal (CHR 0xB2) \<and> isdigit (CHR 0xB2) \<and>
   takeWhile isdecimal [CHR ''1'', CHR 0xB2] = ''1''"
proof -
  have "tokenize (Lexer [CHR ''1'', CHR 0xB2]) =
     Some [\<lparr>ttype = ''INTEGER'', tvalue = [CHR ''1'', CHR 0xB2], tline = 1, tcolumn = 1\<rparr>]"
    by code_simp
  then show ?thesis by (simp add: isdecimal_def isdigit_def code_point_def)
qed

text \<open>
  Claim C6. At a double or single quote \<open>q\<close> the dispatcher runs \<open>lex_string\<close>, which
  emits exactly one \<open>STRING\<close> token, recorded at the opening quote. Its value is the
  opening quote followed by the run \<open>w = string_run q\<close> of what comes after it, copied
  as it stands in the source. If the input goes on after \<open>w\<close>, the next character is
  the same quote \<open>q\<close>: it is passed and it ends the value. If the input ends with \<open>w\<close>,
  the token is emitted all the same, with no closing quote. The last five conjuncts say
  what the run is: it ends at the end of the input and at the quote \<open>q\<close> only; any
  other character that is not a backslash is copied, the other kind of quote too; a
  backslash is copied together with the character after it, whatever that is, so an
  escaped quote does not end the string.
\<close>

theorem C6_string_scanner:
  "(ch = DQUOTE \<or> ch = SQUOTE \<longrightarrow> dispatch ch pk = String) \<and>
   (current_char L = Some q \<and> (q = DQUOTE \<or> q = SQUOTE) \<longrightarrow>
      scan L q = lex_string L q \<and>
      (\<exists>w. w = string_run q (tl (rest L)) \<and>
         (drop (length w) (tl (rest L)) \<noteq> [] \<longrightarrow>
            rest L = q # w @ q # rest (scan L q) \<and>
            tokens (scan L q) =
              tokens L @ [\<lparr>ttype = ''STRING'', tvalue = q # w @ [q],
                           tline = line L, tcolumn = column L\<rparr>] \<and>
            pos (scan L q) = pos L + length w + 2) \<and>
         (drop (length w) (tl (rest L)) = [] \<longrightarrow>
            rest L = q # w \<and> rest (scan L q) = [] \<and>
            tokens (scan L q) =
              tokens L @ [\<lparr>ttype = ''STRING'', tvalue = q # w,
                           tline = line L, tcolumn = column L\<rparr>] \<and>
            pos (scan L q) = pos L + length w + 1))) \<and>
   string_run q [] = [] \<and>
   string_run q (q # cs) = [] \<and>
   (c \<noteq> q \<and> c \<noteq> BACKSLASH \<longrightarrow> string_run q (c # cs) = c # string_run q cs) \<and>
   (q \<noteq> BACKSLASH \<longrightarrow> string_run q (BACKSLASH # d # cs) = BACKSLASH # d # string_run q cs) \<and>
   (q \<noteq> BACKSLASH \<longrightarrow> string_run q [BACKSLASH] = [BACKSLASH])"
proof (intro conjI impI)
  assume "ch = DQUOTE \<or> ch = SQUOTE"
  then show "dispatch ch pk = String" by (rule dispatch_quote)
next
  show "string_run q [] = []" by simp
  show "string_run q (q # cs) = []" by (rule string_run_quote)
next
  assume "c \<noteq> q \<and> c \<noteq> BACKSLASH"
  then show "string_run q (c # cs) = c # string_run q cs" by (simp add: string_run_plain)
next
  assume "q \<noteq> BACKSLASH"
  then show "string_run q (BACKSLASH # d # cs) = BACKSLASH # d # string_run q cs" by auto
next
  assume "q \<noteq> BACKSLASH"
  then show "string_run q [BACKSLASH] = [BACKSLASH]" by auto
next
  assume a: "current_char L = Some q \<and> (q = DQUOTE \<or> q = SQUOTE)"
  then obtain tail where r: "rest L = q # tail"
    by (cases "rest L") (simp_all add: current_char_rest)
  define w where "w = string_run q (tl (rest L))"
  have w': "w = string_run q tail" by (simp add: w_def r)
  show sc: "scan L q = lex_string L q" using a by (simp add: scan_def dispatch_quote)
  have em: "scan L q = emit L (length (string_value q tail)) ''STRING'' (string_value q tail)"
    by (simp add: sc lex_string_emit r)
  have pre: "take (length w) tail = w" unfolding w' by (rule string_run_prefix)
  have closed: "drop (length w) (tl (rest L)) \<noteq> [] \<longrightarrow>
            rest L = q # w @ q # rest (scan L q) \<and>
            tokens (scan L q) =
              tokens L @ [\<lparr>ttype = ''STRING'', tvalue = q # w @ [q],
                           tline = line L, tcolumn = column L\<rparr>] \<and>
            pos (scan L q) = pos L + length w + 2"
  proof
    assume ne: "drop (length w) (tl (rest L)) \<noteq> []"
    have ne': "drop (length w) tail \<noteq> []" using ne by (simp add: r)
    then have "hd (drop (length w) tail) = q"
      using string_run_stop [of q tail] by (simp add: w')
    moreover have "drop (Suc (length w)) tail = tl (drop (length w) tail)"
      by (simp add: drop_Suc tl_drop)
    ultimately have d: "drop (length w) tail = q # drop (Suc (length w)) tail"
      using ne' by (cases "drop (length w) tail") simp_all
    have v: "string_value q tail = q # w @ [q]"
      using ne' by (simp add: string_value_def w' [symmetric])
    have "tail = w @ drop (length w) tail"
      using append_take_drop_id [of "length w" tail] unfolding pre by (rule sym)
    then have "tail = w @ q # drop (Suc (length w)) tail" using d by simp
    moreover have "rest (scan L q) = drop (Suc (length w)) tail" by (simp add: em v r)
    ultimately have "rest L = q # w @ q # rest (scan L q)" by (simp add: r)
    then show "rest L = q # w @ q # rest (scan L q) \<and>
            tokens (scan L q) =
              tokens L @ [\<lparr>ttype = ''STRING'', tvalue = q # w @ [q],
                           tline = line L, tcolumn = column L\<rparr>] \<and>
            pos (scan L q) = pos L + length w + 2"
      by (simp add: em v)
  qed
  have unterminated: "drop (length w) (tl (rest L)) = [] \<longrightarrow>
            rest L = q # w \<and> rest (scan L q) = [] \<and>
            tokens (scan L q) =
              tokens L @ [\<lparr>ttype = ''STRING'', tvalue = q # w,
                           tline = line L, tcolumn = column L\<rparr>] \<and>
            pos (scan L q) = pos L + length w + 1"
  proof
    assume e: "drop (length w) (tl (rest L)) = []"
    have e': "drop (length w) tail = []" using e by (simp add: r)
    have v: "string_value q tail = q # w"
      using e' by (simp add: string_value_def w' [symmetric])
    have "tail = w @ drop (length w) tail"
      using append_take_drop_id [of "length w" tail] unfolding pre by (rule sym)
    then have "tail = w" using e' by simp
    then have rl: "rest L = q # w" using r by simp
    have "rest (scan L q) = []" using e' by (simp add: em v r)
    then show "rest L = q # w \<and> rest (scan L q) = [] \<and>
            tokens (scan L q) =
              tokens L @ [\<lparr>ttype = ''STRING'', tvalue = q # w,
                           tline = line L, tcolumn = column L\<rparr>] \<and>
            pos (scan L q) = pos L + length w + 1"
      using rl by (simp add: em v)
  qed
  show "\<exists>w. w = string_run q (tl (rest L)) \<and>
         (drop (length w) (tl (rest L)) \<noteq> [] \<longrightarrow>
            rest L = q # w @ q # rest (scan L q) \<and>
            tokens (scan L q) =
              tokens L @ [\<lparr>ttype = ''STRING'', tvalue = q # w @ [q],
                           tline = line L, tcolumn = column L\<rparr>] \<and>
            pos (scan L q) = pos L + length w + 2) \<and>
         (drop (length w) (tl (rest L)) = [] \<longrightarrow>
            rest L = q # w \<and> rest (scan L q) = [] \<and>
            tokens (scan L q) =
              tokens L @ [\<lparr>ttype = ''STRING'', tvalue = q # w,
                           tline = line L, tcolumn = column L\<rparr>] \<and>
            pos (scan L q) = pos L + length w + 1)"
    by (rule exI [of _ w], intro conjI, fact w_def, fact closed, fact unterminated)
qed

lemma example_strings:
  "tokenize (Lexer ([DQUOTE] @ ''a'' @ [BACKSLASH, DQUOTE, SQUOTE] @ ''b'' @ [DQUOTE] @ ''c'' @ [SQUOTE] @ ''d'')) =
     Some
      [\<lparr>ttype = ''STRING'', tvalue = [DQUOTE] @ ''a'' @ [BACKSLASH, DQUOTE, SQUOTE] @ ''b'' @ [DQUOTE],
          tline = 1, tcolumn = 1\<rparr>,
       \<lparr>ttype = ''IDENTIFIER'', tvalue = ''c'', tline = 1, tcolumn = 8\<rparr>,
       \<lparr>ttype = ''STRING'', tvalue = [SQUOTE] @ ''d'', tline = 1, tcolumn = 9\<rparr>]"
  by code_simp

theorem C6_witness:
  "current_char (Lexer ([DQUOTE] @ ''a'' @ [BACKSLASH, DQUOTE, SQUOTE] @ ''b'' @ [DQUOTE] @ ''c'' @ [SQUOTE] @ ''d'')) = Some DQUOTE \<and>
   string_run DQUOTE (''a'' @ [BACKSLASH, DQUOTE, SQUOTE] @ ''b'' @ [DQUOTE] @ ''c'' @ [SQUOTE] @ ''d'') =
     ''a'' @ [BACKSLASH, DQUOTE, SQUOTE] @ ''b'' \<and>
   tokens (scan (Lexer ([DQUOTE] @ ''a'' @ [BACKSLASH, DQUOTE, SQUOTE] @ ''b'' @ [DQUOTE] @ ''c'' @ [SQUOTE] @ ''d'')) DQUOTE) =
     [\<lparr>ttype = ''STRING'', tvalue = [DQUOTE] @ ''a'' @ [BACKSLASH, DQUOTE, SQUOTE] @ ''b'' @ [DQUOTE],
         tline = 1, tcolumn = 1\<rparr>] \<and>
   tokenize (Lexer ([DQUOTE] @ ''a'' @ [BACKSLASH, DQUOTE, SQUOTE] @ ''b'' @ [DQUOTE] @ ''c'' @ [SQUOTE] @ ''d'')) =
     Some
      [\<lparr>ttype = ''STRING'', tvalue = [DQUOTE] @ ''a'' @ [BACKSLASH, DQUOTE, SQUOTE] @ ''b'' @ [DQUOTE],
          tline = 1, tcolumn = 1\<rparr>,
       \<lparr>ttype = ''IDENTIFIER'', tvalue = ''c'', tline = 1, tcolumn = 8\<rparr>,
       \<lparr>ttype = ''STRING'', tvalue = [SQUOTE] @ ''d'', tline = 1, tcolumn = 9\<rparr>]"
proof -
  let ?src = "[DQUOTE] @ ''a'' @ [BACKSLASH, DQUOTE, SQUOTE] @ ''b'' @ [DQUOTE] @ ''c'' @ [SQUOTE] @ ''d''"
  define M where "M = Lexer ?src"
  have cur: "current_char M = Some DQUOTE" by (simp add: M_def Lexer_def current_char_def)
  have st: "line M = 1" "column M = 1" "tokens M = []" "pos M = 0"
    "tl (rest M) = ''a'' @ [BACKSLASH, DQUOTE, SQUOTE] @ ''b'' @ [DQUOTE] @ ''c'' @ [SQUOTE] @ ''d''"
    by (simp_all add: M_def Lexer_def rest_def)
  have run: "string_run DQUOTE (''a'' @ [BACKSLASH, DQUOTE, SQUOTE] @ ''b'' @ [DQUOTE] @ ''c'' @ [SQUOTE] @ ''d'') =
     ''a'' @ [BACKSLASH, DQUOTE, SQUOTE] @ ''b''"
    by simp
  note inst = C6_string_scanner [of DQUOTE None M DQUOTE "[]" "CHR ''a''" "CHR ''a''"]
  from inst cur obtain w where w: "w = string_run DQUOTE (tl (rest M))"
    and closed: "drop (length w) (tl (rest M)) \<noteq> [] \<longrightarrow>
            tokens (scan M DQUOTE) =
              tokens M @ [\<lparr>ttype = ''STRING'', tvalue = DQUOTE # w @ [DQUOTE],
                           tline = line M, tcolumn = column M\<rparr>]"
    by blast
  have w': "w = ''a'' @ [BACKSLASH, DQUOTE, SQUOTE] @ ''b''" using w run by (simp add: st)
  have "drop (length w) (tl (rest M)) \<noteq> []" by (simp add: w' st)
  with closed have "tokens (scan M DQUOTE) =
     [\<lparr>ttype = ''STRING'', tvalue = [DQUOTE] @ ''a'' @ [BACKSLASH, DQUOTE, SQUOTE] @ ''b'' @ [DQUOTE],
         tline = 1, tcolumn = 1\<rparr>]"
    by (simp add: w' st)
  then show ?thesis using cur run example_strings unfolding M_def [symmetric] by simp
qed

end
